theory Spec2Isabelle
  imports Main "HOL-Library.Word" "HOL-Library.AList"
begin

unbundle bit_operations_syntax

section \<open>Common data: bytes, Python slices, exceptions\<close>

type_synonym byte = "8 word"
type_synonym bytes = "byte list"

text \<open>
  Python's \<^verbatim>\<open>b[:n]\<close> and \<^verbatim>\<open>b[n:]\<close> for an arbitrary integer \<open>n\<close>: a negative
  bound counts from the end, and no slice ever raises.
\<close>

definition py_take :: "int \<Rightarrow> 'a list \<Rightarrow> 'a list" where
  "py_take n xs = (if 0 \<le> n then take (nat n) xs else take (length xs - nat (- n)) xs)"

definition py_slice :: "nat \<Rightarrow> nat \<Rightarrow> 'a list \<Rightarrow> 'a list" where
  "py_slice i j xs = drop i (take j xs)"

text \<open>
  The exceptions of the two modules. The f-string messages of \<^verbatim>\<open>PdfReadError\<close> are
  kept as constructors carrying the interpolated numbers.
\<close>

datatype read_failure =
    GenerationOccursAfterFree int int int
  | FreeingInstructionMismatch int int int
  | NeverFreedButReused int int
  | IllegalGeneration int int
  | NotInHistory int int int
  | CouldNotFindObject
  | OrphanedHigherGenerationObjects "(int \<times> int) list"
  | EmptyFile
  | AuthenticationFailed
  | NoKeyAvailable

datatype error =
    PdfReadError read_failure
  | PdfError_PermsTampered
  | ValueError
  | AssertionError
  | StructError
  | IndexError
  | NotImplementedError
  | AttributeError
  | TypeError

section \<open>The cross-reference cache (reader.py, class XRefCache)\<close>

text \<open>
  A \<^verbatim>\<open>generic.Reference\<close> is compared by object number and generation; the markers
  stored by \<^verbatim>\<open>put_ref\<close> are byte offsets, those stored by \<^verbatim>\<open>put_obj_stream_ref\<close>
  are pairs (object stream number, index in the stream).
\<close>

type_synonym reference = "int \<times> int"

datatype marker = Offset int | InObjStream int int

datatype xref_target = NullObject | Start int

text \<open>
  The fields of \<^verbatim>\<open>XRefCache.__init__\<close>. The dictionaries \<^verbatim>\<open>standard_xrefs\<close> and
  \<^verbatim>\<open>history\<close> are keyed by (generation, idnum). \<^verbatim>\<open>history\<close> is a
  \<^verbatim>\<open>defaultdict(list)\<close>, hence a total function with default \<open>[]\<close>.
  \<^verbatim>\<open>_previous_expected_free\<close> keeps Python's insertion order, because the final
  error message enumerates it. The sets in \<^verbatim>\<open>_generations\<close> are iterated by
  \<^verbatim>\<open>free_ref\<close>, so they are duplicate-free lists.
\<close>

record xref_cache =
  xref_sections :: int
  xref_locations :: "int list"
  in_obj_stream :: "int \<rightharpoonup> int \<times> int"
  standard_xrefs :: "int \<times> int \<rightharpoonup> xref_target"
  last_change :: "int \<rightharpoonup> int"
  history :: "int \<times> int \<Rightarrow> (int \<times> marker) list"
  current_section_ids :: "reference set"
  current_section_freed :: "reference set"
  refs_by_section :: "reference set list"
  freed_by_section :: "reference set list"
  generations :: "int \<rightharpoonup> int list"
  previous_expected_free :: "(int \<times> int) list"
  obj_streams_by_revision :: "int \<Rightarrow> reference set"

definition XRefCache_init :: xref_cache where
  "XRefCache_init = \<lparr>
     xref_sections = 0,
     xref_locations = [],
     in_obj_stream = Map.empty,
     standard_xrefs = Map.empty,
     last_change = Map.empty,
     history = (\<lambda>_. []),
     current_section_ids = {},
     current_section_freed = {},
     refs_by_section = [],
     freed_by_section = [],
     generations = Map.empty,
     previous_expected_free = [],
     obj_streams_by_revision = (\<lambda>_. {}) \<rparr>"

definition next_section :: "xref_cache \<Rightarrow> xref_cache" where
  "next_section c = c\<lparr>
     xref_sections := xref_sections c + 1,
     refs_by_section := refs_by_section c @ [current_section_ids c],
     current_section_ids := {},
     freed_by_section := freed_by_section c @ [current_section_freed c],
     current_section_freed := {} \<rparr>"

definition used_later :: "xref_cache \<Rightarrow> int \<Rightarrow> int \<Rightarrow> bool" where
  "used_later c idnum generation =
     (case generations c idnum of None \<Rightarrow> False | Some gens \<Rightarrow> generation \<in> set gens)"

text \<open>
  \<^verbatim>\<open>free_ref\<close> and \<^verbatim>\<open>put_ref\<close>. The statements run in the source's order; an exception leaves the
  method at once, so the model returns the error and drops the partly updated cache.
  In \<^verbatim>\<open>put_ref\<close> the \<^verbatim>\<open>else\<close> branch is entered only when \<^verbatim>\<open>used_later\<close> found
  the set of generations of \<open>idnum\<close>, so its \<open>None\<close> case is never taken.
\<close>

definition free_ref :: "int \<Rightarrow> int \<Rightarrow> xref_cache \<Rightarrow> error + xref_cache" where
  "free_ref idnum next_generation c =
     (if idnum = 0 then Inr c
      else
        let prev_generation = (if next_generation \<noteq> 0 then next_generation - 1 else 65535);
            null_ref = (idnum, prev_generation);
            c1 = c\<lparr> standard_xrefs := (standard_xrefs c)((prev_generation, idnum) \<mapsto> NullObject),
                     current_section_freed := insert null_ref (current_section_freed c),
                     current_section_ids := insert null_ref (current_section_ids c) \<rparr>;
            checked =
              (case generations c1 idnum of
                 None \<Rightarrow> Inr (c1\<lparr> generations := (generations c1)(idnum \<mapsto> [prev_generation]) \<rparr>)
               | Some gens \<Rightarrow>
                   (case find (\<lambda>gen. gen \<le> prev_generation) gens of
                      Some conflicting_gen \<Rightarrow>
                        Inl (PdfReadError
                          (GenerationOccursAfterFree conflicting_gen idnum prev_generation))
                    | None \<Rightarrow>
                        Inr (c1\<lparr> generations :=
                               (generations c1)(idnum \<mapsto> List.insert prev_generation gens) \<rparr>)))
        in case checked of
             Inl e \<Rightarrow> Inl e
           | Inr c2 \<Rightarrow>
               let c3 = (if last_change c2 idnum = None
                         then c2\<lparr> last_change := (last_change c2)(idnum \<mapsto> xref_sections c2) \<rparr>
                         else c2)
               in (case map_of (previous_expected_free c3) idnum of
                     None \<Rightarrow> Inr c3
                   | Some expected_generation \<Rightarrow>
                       if expected_generation \<noteq> next_generation
                       then Inl (PdfReadError
                              (FreeingInstructionMismatch next_generation idnum expected_generation))
                       else Inr (c3\<lparr> previous_expected_free :=
                                      AList.delete idnum (previous_expected_free c3) \<rparr>)))"

definition put_ref :: "int \<Rightarrow> int \<Rightarrow> int \<Rightarrow> xref_cache \<Rightarrow> error + xref_cache" where
  "put_ref idnum generation start c =
     (if map_of (previous_expected_free c) idnum \<noteq> None
      then Inl (PdfReadError (NeverFreedButReused generation idnum))
      else if generation > 65535
      then Inl (PdfReadError (IllegalGeneration generation idnum))
      else
        let c1 = (if generation > 0
                  then c\<lparr> previous_expected_free :=
                           AList.update idnum generation (previous_expected_free c) \<rparr>
                  else c);
            c2 = (if \<not> used_later c1 idnum generation
                  then c1\<lparr> standard_xrefs := (standard_xrefs c1)((generation, idnum) \<mapsto> Start start),
                            last_change := (last_change c1)(idnum \<mapsto> xref_sections c1),
                            generations := (generations c1)(idnum \<mapsto> [generation]) \<rparr>
                  else (case generations c1 idnum of
                          Some gens \<Rightarrow>
                            c1\<lparr> generations :=
                                 (generations c1)(idnum \<mapsto> List.insert generation gens) \<rparr>
                        | None \<Rightarrow> c1))
        in Inr (c2\<lparr> history := (history c2)((generation, idnum) :=
                                   history c2 (generation, idnum) @ [(xref_sections c2, Offset start)]),
                     current_section_ids := insert (idnum, generation) (current_section_ids c2) \<rparr>))"

definition put_obj_stream_ref :: "int \<Rightarrow> int \<Rightarrow> int \<Rightarrow> xref_cache \<Rightarrow> xref_cache" where
  "put_obj_stream_ref idnum obj_stream_num obj_stream_ix c =
     (let c1 = c\<lparr> obj_streams_by_revision := (obj_streams_by_revision c)(xref_sections c :=
                     insert (obj_stream_num, 0) (obj_streams_by_revision c (xref_sections c))) \<rparr>;
          c2 = (if \<not> used_later c1 idnum 0
                then c1\<lparr> in_obj_stream := (in_obj_stream c1)(idnum \<mapsto> (obj_stream_num, obj_stream_ix)),
                          last_change := (last_change c1)(idnum \<mapsto> xref_sections c1),
                          generations := (generations c1)(idnum \<mapsto> [0]) \<rparr>
                else c1)
      in c2\<lparr> history := (history c2)((0, idnum) :=
                  history c2 (0, idnum) @ [(xref_sections c2, InObjStream obj_stream_num obj_stream_ix)]),
              current_section_ids := insert (idnum, 0) (current_section_ids c2) \<rparr>)"

definition total_revisions :: "xref_cache \<Rightarrow> int" where
  "total_revisions c = xref_sections c"

text \<open>
  \<^verbatim>\<open>get_historical_ref\<close>: the \<^verbatim>\<open>for\<close> loop over the history list of the reference,
  returning at the first entry that passes the test, and the error after the loop.
\<close>

fun scan_history :: "int \<Rightarrow> int \<Rightarrow> (int \<times> marker) list \<Rightarrow> marker option" where
  "scan_history revision max_index [] = None"
| "scan_history revision max_index ((rev_index, m) # rest) =
     (if revision \<ge> max_index - rev_index then Some m
      else scan_history revision max_index rest)"

definition get_historical_ref :: "xref_cache \<Rightarrow> reference \<Rightarrow> int \<Rightarrow> error + marker" where
  "get_historical_ref c ref revision =
     (let max_index = xref_sections c - 1;
          ix = (snd ref, fst ref)
      in case scan_history revision max_index (history c ix) of
           Some m \<Rightarrow> Inr m
         | None \<Rightarrow> Inl (PdfReadError (NotInHistory (fst ref) (snd ref) revision)))"

section \<open>Reading the cross-reference sections\<close>

text \<open>
  One line of a cross-reference table or one entry of a cross-reference stream, after
  its fields were read: \<^verbatim>\<open>read_xref_table\<close> and \<^verbatim>\<open>read_xref_stream\<close> call
  \<^verbatim>\<open>put_ref(num, generation, offset)\<close>, \<^verbatim>\<open>put_obj_stream_ref(num, objstr_num, objstr_idx)\<close>
  or \<^verbatim>\<open>free_ref(num, next_generation)\<close>, and ignore a table line whose marker is neither
  \<^verbatim>\<open>n\<close> nor \<^verbatim>\<open>f\<close> and a stream entry of unknown type.
\<close>

datatype xref_entry =
    InUse int int int
  | Compressed int int int
  | Free int int
  | Ignored

fun apply_entry :: "xref_entry \<Rightarrow> xref_cache \<Rightarrow> error + xref_cache" where
  "apply_entry (InUse num generation offset) c = put_ref num generation offset c"
| "apply_entry (Compressed num objstr_num objstr_idx) c =
     Inr (put_obj_stream_ref num objstr_num objstr_idx c)"
| "apply_entry (Free num next_generation) c = free_ref num next_generation c"
| "apply_entry Ignored c = Inr c"

fun apply_entries :: "xref_entry list \<Rightarrow> xref_cache \<Rightarrow> error + xref_cache" where
  "apply_entries [] c = Inr c"
| "apply_entries (e # es) c =
     (case apply_entry e c of Inl err \<Rightarrow> Inl err | Inr c' \<Rightarrow> apply_entries es c')"

text \<open>
  One round of the \<^verbatim>\<open>while startxref is not None\<close> loop of \<^verbatim>\<open>_read_xrefs\<close>: the
  location is logged, the entries of the section found there are fed to the cache, and
  \<^verbatim>\<open>_next_section\<close> closes the section. A section is the pair of its \<^verbatim>\<open>startxref\<close>
  and its entries in file order; the list of sections is in reading order (newest
  first), following the \<^verbatim>\<open>/Prev\<close> pointers.
\<close>

type_synonym xref_section = "int \<times> xref_entry list"

definition read_section :: "xref_section \<Rightarrow> xref_cache \<Rightarrow> error + xref_cache" where
  "read_section sec c =
     (case apply_entries (snd sec) (c\<lparr> xref_locations := xref_locations c @ [fst sec] \<rparr>) of
        Inl err \<Rightarrow> Inl err
      | Inr c' \<Rightarrow> Inr (next_section c'))"

fun read_sections :: "xref_section list \<Rightarrow> xref_cache \<Rightarrow> error + xref_cache" where
  "read_sections [] c = Inr c"
| "read_sections (sec # secs) c =
     (case read_section sec c of Inl err \<Rightarrow> Inl err | Inr c' \<Rightarrow> read_sections secs c')"

definition read_xrefs :: "xref_section list \<Rightarrow> xref_cache \<Rightarrow> error + xref_cache" where
  "read_xrefs secs c =
     (case read_sections secs c of
        Inl err \<Rightarrow> Inl err
      | Inr c' \<Rightarrow>
          if previous_expected_free c' \<noteq> []
          then Inl (PdfReadError (OrphanedHigherGenerationObjects (previous_expected_free c')))
          else Inr c')"

text \<open>
  \<^verbatim>\<open>PdfFileReader.read\<close>: the header must give a version, the stream must not be
  empty, and the last statement is the call of \<^verbatim>\<open>_read_xrefs\<close> on a new cache.
\<close>

definition read :: "(int \<times> int) option \<Rightarrow> bool \<Rightarrow> xref_section list \<Rightarrow> error + xref_cache" where
  "read input_version stream_empty secs =
     (case input_version of
        None \<Rightarrow> Inl ValueError
      | Some v \<Rightarrow>
          if stream_empty then Inl (PdfReadError EmptyFile)
          else read_xrefs secs XRefCache_init)"

text \<open>
  The revision number (oldest first) of a section index (newest first), the arithmetic
  of \<^verbatim>\<open>get_last_change\<close> and \<^verbatim>\<open>get_introducing_revision\<close>.
\<close>

definition revision_of :: "xref_cache \<Rightarrow> int \<Rightarrow> int" where
  "revision_of c section = xref_sections c - 1 - section"

text \<open>
  The order in which the reader fills the history lists: every list is in ascending
  order of section index, and no index lies beyond the current section counter.
\<close>

definition history_ordered :: "xref_cache \<Rightarrow> bool" where
  "history_ordered c \<longleftrightarrow>
     (\<forall>ix. sorted (map fst (history c ix)) \<and> (\<forall>e \<in> set (history c ix). fst e \<le> xref_sections c))"

section \<open>Decoding the entries of a cross-reference stream (reader.py)\<close>

text \<open>
  The value of a byte string read as a big-endian unsigned integer: the first byte is
  the most significant one.
\<close>

definition be_unsigned :: "bytes \<Rightarrow> int" where
  "be_unsigned d = foldl (\<lambda>acc b. acc * 256 + uint b) 0 d"

text \<open>
  \<^verbatim>\<open>struct.unpack(">q", b)[0]\<close>: exactly 8 bytes are required, and they are read as a
  big-endian two's complement number of 64 bits.
\<close>

definition struct_unpack_be_q :: "bytes \<Rightarrow> error + int" where
  "struct_unpack_be_q b =
     (if length b \<noteq> 8 then Inl StructError
      else let u = be_unsigned b in Inr (if u < 2 ^ 63 then u else u - 2 ^ 64))"

text \<open>
  \<^verbatim>\<open>convert_to_int(d, size)\<close>, with \<open>sz\<close> for the parameter \<^verbatim>\<open>size\<close>. In the branch for more than 8 bytes the generator
  raises each byte to the power \<open>size - ix - 1\<close> and sums the powers. The callers pass
  \<open>d = read(size)\<close>, at most \<open>size\<close> bytes, so that exponent is never negative.
\<close>

definition convert_to_int :: "bytes \<Rightarrow> int \<Rightarrow> error + int" where
  "convert_to_int d sz =
     (if sz \<le> 8
      then struct_unpack_be_q (replicate (nat (8 - sz)) 0 @ d)
      else Inr (sum_list (map (\<lambda>(ix, digit). uint digit ^ nat (sz - int ix - 1))
                              (enumerate 0 d))))"

text \<open>
  \<^verbatim>\<open>get_entry(ix)\<close>, the closure of \<^verbatim>\<open>read_xref_stream\<close> over the \<^verbatim>\<open>/W\<close> array
  \<open>entry_sizes\<close> and the unread rest of the stream data, which it returns shortened by
  the bytes read. \<^verbatim>\<open>BytesIO.read(n)\<close> gives at most \<open>n\<close> bytes, fewer at the end.
\<close>

definition get_entry :: "int list \<Rightarrow> nat \<Rightarrow> bytes \<Rightarrow> (error + int) \<times> bytes" where
  "get_entry entry_sizes ix stream_data =
     (if ix \<ge> length entry_sizes then (Inl IndexError, stream_data)
      else if entry_sizes ! ix > 0
      then (convert_to_int (take (nat (entry_sizes ! ix)) stream_data) (entry_sizes ! ix),
            drop (nat (entry_sizes ! ix)) stream_data)
      else if ix = 0 then (Inr 1, stream_data)
      else (Inr 0, stream_data))"

text \<open>
  The body of the inner loop of \<^verbatim>\<open>read_xref_stream\<close> for object number \<open>num\<close>: the type
  field, then the two other fields (read in this order in every branch), then the call
  on the cache that the type selects.
\<close>

definition read_stream_entry ::
  "int list \<Rightarrow> int \<Rightarrow> bytes \<times> xref_cache \<Rightarrow> error + bytes \<times> xref_cache" where
  "read_stream_entry entry_sizes num st =
     (case get_entry entry_sizes 0 (fst st) of
        (Inl err, _) \<Rightarrow> Inl err
      | (Inr xref_type, d1) \<Rightarrow>
          (case get_entry entry_sizes 1 d1 of
             (Inl err, _) \<Rightarrow> Inl err
           | (Inr field1, d2) \<Rightarrow>
               (case get_entry entry_sizes 2 d2 of
                  (Inl err, _) \<Rightarrow> Inl err
                | (Inr field2, d3) \<Rightarrow>
                    (case apply_entry
                            (if xref_type = 1 then InUse num field2 field1
                             else if xref_type = 2 then Compressed num field1 field2
                             else if xref_type = 0 then Free num field2
                             else Ignored) (snd st) of
                       Inl err \<Rightarrow> Inl err
                     | Inr c' \<Rightarrow> Inr (d3, c')))))"

fun read_stream_entries ::
  "int list \<Rightarrow> int list \<Rightarrow> bytes \<times> xref_cache \<Rightarrow> error + bytes \<times> xref_cache" where
  "read_stream_entries entry_sizes [] st = Inr st"
| "read_stream_entries entry_sizes (num # nums) st =
     (case read_stream_entry entry_sizes num st of
        Inl err \<Rightarrow> Inl err
      | Inr st' \<Rightarrow> read_stream_entries entry_sizes nums st')"

text \<open>
  The outer loop over the \<^verbatim>\<open>/Index\<close> pairs (start, size), with the assertion that the
  subsections increase, and \<^verbatim>\<open>read_xref_stream\<close> itself, which closes the section.
\<close>

fun read_subsections ::
  "int list \<Rightarrow> (int \<times> int) list \<Rightarrow> int \<Rightarrow> bytes \<times> xref_cache \<Rightarrow> error + bytes \<times> xref_cache" where
  "read_subsections entry_sizes [] last_end st = Inr st"
| "read_subsections entry_sizes ((start, sz) # pairs) last_end st =
     (if \<not> start \<ge> last_end then Inl AssertionError
      else case read_stream_entries entry_sizes [start .. start + sz - 1] st of
             Inl err \<Rightarrow> Inl err
           | Inr st' \<Rightarrow> read_subsections entry_sizes pairs (start + sz) st')"

definition read_xref_stream ::
  "int list \<Rightarrow> (int \<times> int) list \<Rightarrow> bytes \<Rightarrow> xref_cache \<Rightarrow> error + xref_cache" where
  "read_xref_stream entry_sizes idx_pairs data c =
     (case read_subsections entry_sizes idx_pairs 0 (data, c) of
        Inl err \<Rightarrow> Inl err
      | Inr st \<Rightarrow> Inr (next_section (snd st)))"

section \<open>Security handler and crypt filter state (crypt.py)\<close>

datatype AuthResult = FAILED | USER | OWNER

datatype StandardSecuritySettingsRevision = RC4_BASIC | RC4_EXTENDED | RC4_OR_AES128 | AES256

text \<open>
  The fields that \<^verbatim>\<open>StandardSecurityHandler.__init__\<close> sets: the configuration read from
  the encryption dictionary, and the two transient fields \<^verbatim>\<open>_shared_key\<close> and
  \<^verbatim>\<open>_auth_failed\<close>. \<^verbatim>\<open>/OE\<close>, \<^verbatim>\<open>/UE\<close> and \<^verbatim>\<open>/Perms\<close> are \<^verbatim>\<open>None\<close> in a legacy
  handler.
\<close>

record security_handler =
  revision :: StandardSecuritySettingsRevision
  keylen :: int
  perms :: int
  odata :: bytes
  udata :: bytes
  oeseed :: "bytes option"
  ueseed :: "bytes option"
  encrypted_perms :: "bytes option"
  encrypt_metadata :: bool
  handler_shared_key :: "bytes option"
  handler_auth_failed :: bool

text \<open>
  \<^verbatim>\<open>StandardSecurityHandler.authenticate\<close>. The two procedures it calls,
  \<^verbatim>\<open>_authenticate_r6\<close> and \<^verbatim>\<open>_authenticate_legacy\<close>, are arguments here; each gives an
  exception or the pair (result, key or \<^verbatim>\<open>None\<close>). A credential is a byte string, for which
  \<^verbatim>\<open>_legacy_normalise_pw\<close> is \<^verbatim>\<open>password[:32]\<close>. \<open>authenticate_inner\<close> is the part before
  the key is looked at; \<open>authenticate\<close> returns what the method returns and the handler
  as the method leaves it.
\<close>

type_synonym r6_procedure = "security_handler \<Rightarrow> bytes \<Rightarrow> error + AuthResult \<times> bytes option"
type_synonym legacy_procedure =
  "security_handler \<Rightarrow> bytes \<Rightarrow> bytes \<Rightarrow> error + AuthResult \<times> bytes option"

definition legacy_normalise_pw :: "bytes \<Rightarrow> bytes" where
  "legacy_normalise_pw password = take 32 password"

definition authenticate_inner ::
  "r6_procedure \<Rightarrow> legacy_procedure \<Rightarrow> security_handler \<Rightarrow> bytes \<Rightarrow> bytes option
     \<Rightarrow> error + AuthResult \<times> bytes option" where
  "authenticate_inner authenticate_r6 authenticate_legacy h credential id1 =
     (if revision h = AES256 then authenticate_r6 h credential
      else case id1 of
             None \<Rightarrow> Inl ValueError
           | Some i \<Rightarrow> authenticate_legacy h i (legacy_normalise_pw credential))"

definition authenticate ::
  "r6_procedure \<Rightarrow> legacy_procedure \<Rightarrow> security_handler \<Rightarrow> bytes \<Rightarrow> bytes option
     \<Rightarrow> (error + AuthResult) \<times> security_handler" where
  "authenticate authenticate_r6 authenticate_legacy h credential id1 =
     (case authenticate_inner authenticate_r6 authenticate_legacy h credential id1 of
        Inl err \<Rightarrow> (Inl err, h)
      | Inr (res, key) \<Rightarrow>
          (case key of
             Some k \<Rightarrow> (Inr res, h\<lparr> handler_shared_key := Some k \<rparr>)
           | None \<Rightarrow> (Inr res, h\<lparr> handler_auth_failed := True \<rparr>)))"

definition get_file_encryption_key :: "security_handler \<Rightarrow> error + bytes" where
  "get_file_encryption_key h =
     (case handler_shared_key h of
        None \<Rightarrow> Inl (PdfReadError
                  (if handler_auth_failed h then AuthenticationFailed else NoKeyAvailable))
      | Some key \<Rightarrow> Inr key)"

text \<open>
  A crypt filter holds its own \<^verbatim>\<open>_shared_key\<close>. The property \<^verbatim>\<open>CryptFilter.shared_key\<close>
  reads \<^verbatim>\<open>self._auth_failed\<close> and calls \<^verbatim>\<open>self.derive_shared_encryption_key()\<close>, which
  the subclasses define. Both are arguments of the model and work on a state \<open>'s\<close>
  outside the filter (its handler, or whatever the subclass consults): the flag is a
  read that may raise, the derivation may raise and may change that state. The result is
  what the property returns or raises, the filter and the outside state afterwards.
\<close>

record crypt_filter =
  filter_shared_key :: "bytes option"

definition shared_key ::
  "('s \<Rightarrow> error + bool) \<Rightarrow> ('s \<Rightarrow> (error + bytes) \<times> 's) \<Rightarrow> crypt_filter \<times> 's
     \<Rightarrow> (error + bytes) \<times> crypt_filter \<times> 's" where
  "shared_key auth_failed derive_shared_encryption_key st =
     (case filter_shared_key (fst st) of
        Some key \<Rightarrow> (Inr key, st)
      | None \<Rightarrow>
          (case auth_failed (snd st) of
             Inl err \<Rightarrow> (Inl err, st)
           | Inr True \<Rightarrow> (Inl (PdfReadError AuthenticationFailed), st)
           | Inr False \<Rightarrow>
               (case derive_shared_encryption_key (snd st) of
                  (Inl err, s') \<Rightarrow> (Inl err, fst st, s')
                | (Inr key, s') \<Rightarrow> (Inr key, (fst st)\<lparr> filter_shared_key := Some key \<rparr>, s'))))"

text \<open>
  \<^verbatim>\<open>StandardCryptFilter\<close>: the outside state is the \<^verbatim>\<open>_handler\<close> attribute, \<^verbatim>\<open>None\<close> until
  a standard security handler is set. \<^verbatim>\<open>_auth_failed\<close> gives the flag of the handler and
  raises \<^verbatim>\<open>NotImplementedError\<close> without one; the derivation is
  \<^verbatim>\<open>self._handler.get_file_encryption_key()\<close>, which leaves the handler as it was.
\<close>

definition standard_auth_failed :: "security_handler option \<Rightarrow> error + bool" where
  "standard_auth_failed handler =
     (case handler of Some h \<Rightarrow> Inr (handler_auth_failed h) | None \<Rightarrow> Inl NotImplementedError)"

definition standard_derive_shared_encryption_key ::
  "security_handler option \<Rightarrow> (error + bytes) \<times> security_handler option" where
  "standard_derive_shared_encryption_key handler =
     (case handler of
        Some h \<Rightarrow> (get_file_encryption_key h, handler)
      | None \<Rightarrow> (Inl AttributeError, handler))"

definition standard_shared_key ::
  "crypt_filter \<times> security_handler option
     \<Rightarrow> (error + bytes) \<times> crypt_filter \<times> security_handler option" where
  "standard_shared_key = shared_key standard_auth_failed standard_derive_shared_encryption_key"

text \<open>
  A series of \<^verbatim>\<open>authenticate\<close> calls on one handler, each given by its credential and
  \<^verbatim>\<open>id1\<close>; the handler after the last call.
\<close>

fun authenticate_calls ::
  "r6_procedure \<Rightarrow> legacy_procedure \<Rightarrow> security_handler \<Rightarrow> (bytes \<times> bytes option) list
     \<Rightarrow> security_handler" where
  "authenticate_calls authenticate_r6 authenticate_legacy h [] = h"
| "authenticate_calls authenticate_r6 authenticate_legacy h ((credential, id1) # calls) =
     authenticate_calls authenticate_r6 authenticate_legacy
       (snd (authenticate authenticate_r6 authenticate_legacy h credential id1)) calls"

text \<open>
  An example: a revision 6 handler with stand-ins for the two procedures, of which the
  first accepts the password \<open>[1]\<close> only.
\<close>

definition example_handler :: security_handler where
  "example_handler = \<lparr> revision = AES256, keylen = 32, perms = - 4, odata = [], udata = [],
     oeseed = None, ueseed = None, encrypted_perms = None, encrypt_metadata = True,
     handler_shared_key = None, handler_auth_failed = False \<rparr>"

definition example_r6 :: r6_procedure where
  "example_r6 h credential = (if credential = [1] then Inr (USER, Some [7, 7]) else Inr (FAILED, None))"

definition example_legacy :: legacy_procedure where
  "example_legacy h i credential = Inr (FAILED, None)"

section \<open>Key derivation (crypt.py)\<close>

text \<open>
  The hash functions of \<^verbatim>\<open>hashlib\<close> and the AES functions of \<^verbatim>\<open>oscrypto.symmetric\<close>
  are outside the repository: they are the fields of a record that every function below
  takes as its first argument. A hash function maps the bytes fed to it to the digest.
  \<^verbatim>\<open>aes_cbc_no_padding_encrypt(key, data, iv)\<close> returns the pair (iv, ciphertext) or
  raises, \<^verbatim>\<open>aes_cbc_no_padding_decrypt(key, data, iv)\<close> returns the plaintext or raises.
\<close>

record primitives =
  md5 :: "bytes \<Rightarrow> bytes"
  sha256 :: "bytes \<Rightarrow> bytes"
  sha384 :: "bytes \<Rightarrow> bytes"
  sha512 :: "bytes \<Rightarrow> bytes"
  aes_cbc_no_padding_encrypt :: "bytes \<Rightarrow> bytes \<Rightarrow> bytes \<Rightarrow> error + bytes \<times> bytes"
  aes_cbc_no_padding_decrypt :: "bytes \<Rightarrow> bytes \<Rightarrow> bytes \<Rightarrow> error + bytes"

text \<open>
  A \<^verbatim>\<open>hashlib\<close> object is the byte string fed so far: \<^verbatim>\<open>md5(x)\<close> starts it, \<^verbatim>\<open>update\<close>
  appends, \<^verbatim>\<open>digest\<close> hashes it.
\<close>

definition hash_new :: "bytes \<Rightarrow> bytes" where
  "hash_new x = x"

definition hash_update :: "bytes \<Rightarrow> bytes \<Rightarrow> bytes" where
  "hash_update m x = m @ x"

definition encryption_padding :: bytes where
  "encryption_padding =
     [0x28, 0xbf, 0x4e, 0x5e, 0x4e, 0x75, 0x8a, 0x41, 0x64, 0x00, 0x4e, 0x56,
      0xff, 0xfa, 0x01, 0x08, 0x2e, 0x2e, 0x00, 0xb6, 0xd0, 0x68, 0x3e, 0x80, 0x2f, 0x0c,
      0xa9, 0xfe, 0x64, 0x53, 0x69, 0x7a]"

text \<open>
  \<^verbatim>\<open>struct.pack('<i', p)\<close>: the four bytes of \<open>p\<close> in two's complement, low-order byte
  first; \<^verbatim>\<open>struct.error\<close> when \<open>p\<close> does not fit 32 signed bits.
\<close>

definition struct_pack_le_i :: "int \<Rightarrow> error + bytes" where
  "struct_pack_le_i p =
     (if p < - (2 ^ 31) \<or> 2 ^ 31 \<le> p then Inl StructError
      else Inr (map (\<lambda>i. word_of_int ((p mod 2 ^ 32) div 256 ^ i)) [0, 1, 2, 3]))"

text \<open>
  \<^verbatim>\<open>_derive_legacy_file_key\<close>, statement by statement; the loop of step 8 runs over
  \<^verbatim>\<open>range(50)\<close> and does not use its index. The parameter \<^verbatim>\<open>rev\<close> is \<open>rev'\<close>, and
  \<^verbatim>\<open>keylen\<close> is \<open>key_len\<close>.
\<close>

definition derive_legacy_file_key ::
  "primitives \<Rightarrow> bytes \<Rightarrow> int \<Rightarrow> int \<Rightarrow> bytes \<Rightarrow> int \<Rightarrow> bytes \<Rightarrow> bool \<Rightarrow> error + bytes" where
  "derive_legacy_file_key P password rev' key_len owner_entry p_entry id1_entry metadata_encrypt =
     (let password = take 32 (password @ encryption_padding);
          m = hash_new password;
          m = hash_update m owner_entry
      in case struct_pack_le_i p_entry of
           Inl err \<Rightarrow> Inl err
         | Inr p_bytes \<Rightarrow>
             let m = hash_update m p_bytes;
                 m = hash_update m id1_entry;
                 m = (if rev' \<ge> 4 \<and> \<not> metadata_encrypt
                      then hash_update m [0xff, 0xff, 0xff, 0xff] else m);
                 md5_hash = md5 P m;
                 md5_hash = (if rev' \<ge> 3
                             then fold (\<lambda>i h. md5 P (py_take key_len h)) [0 ..< 50] md5_hash
                             else md5_hash)
             in Inr (py_take key_len md5_hash))"

text \<open>
  The claimed value, in the words of the specification: a signed integer of 32 bits
  written low-order byte first, the hashed string, and the 50 rounds.
\<close>

definition int32_le_bytes :: "32 word \<Rightarrow> bytes" where
  "int32_le_bytes w = [ucast w, ucast (drop_bit 8 w), ucast (drop_bit 16 w), ucast (drop_bit 24 w)]"

definition legacy_file_key_spec ::
  "primitives \<Rightarrow> bytes \<Rightarrow> int \<Rightarrow> nat \<Rightarrow> bytes \<Rightarrow> 32 word \<Rightarrow> bytes \<Rightarrow> bool \<Rightarrow> bytes" where
  "legacy_file_key_spec P padded_password rev' n owner_entry p id1_entry metadata_encrypt =
     take n
       (((\<lambda>digest. md5 P (take n digest)) ^^ (if rev' \<ge> 3 then 50 else 0))
          (md5 P (padded_password @ owner_entry @ int32_le_bytes p @ id1_entry @
                  (if rev' \<ge> 4 \<and> \<not> metadata_encrypt then [0xff, 0xff, 0xff, 0xff] else []))))"

text \<open>
  Stand-ins for the primitives, for running the functions on examples: the "MD5" is the
  reversed input cut to 16 bytes, a "SHA" digest is the first byte of the input followed
  by zero bytes up to the right length, and the "AES" functions return their data
  unchanged.
\<close>

definition toy_digest :: "nat \<Rightarrow> bytes \<Rightarrow> bytes" where
  "toy_digest n x = take n (take 1 x @ replicate n 0)"

definition toy_primitives :: primitives where
  "toy_primitives = \<lparr> md5 = (\<lambda>x. take 16 (rev x)),
     sha256 = toy_digest 32, sha384 = toy_digest 48, sha512 = toy_digest 64,
     aes_cbc_no_padding_encrypt = (\<lambda>key data iv. Inr (iv, data)),
     aes_cbc_no_padding_decrypt = (\<lambda>key data iv. Inr data) \<rparr>"

section \<open>The revision 6 hash and authentication (crypt.py)\<close>

record R6KeyEntry =
  hash_value :: bytes
  validation_salt :: bytes
  key_salt :: bytes

definition R6KeyEntry_from_bytes :: "bytes \<Rightarrow> error + R6KeyEntry" where
  "R6KeyEntry_from_bytes entry =
     (if length entry \<noteq> 48 then Inl AssertionError
      else Inr \<lparr> hash_value = take 32 entry, validation_salt = py_slice 32 40 entry,
                 key_salt = py_slice 40 48 entry \<rparr>)"

definition r6_normalise_pw :: "bytes \<Rightarrow> bytes" where
  "r6_normalise_pw password = take 127 password"

definition bytes_mod_3 :: "bytes \<Rightarrow> int" where
  "bytes_mod_3 input_bytes = sum_list (map (\<lambda>b. uint b mod 3) input_bytes) mod 3"

text \<open>
  One pass through the body of the \<^verbatim>\<open>while\<close> loop of \<^verbatim>\<open>_r6_hash_algo\<close>, on the loop
  variables \<open>(k, round_no, last_byte_val)\<close>; \<open>u\<close> is \<^verbatim>\<open>(u_entry or b'')\<close>. The tuple
  \<^verbatim>\<open>hashes\<close> is indexed by a number in \<open>{0, 1, 2}\<close>. \<^verbatim>\<open>e[len(e) - 1]\<close> raises
  \<^verbatim>\<open>IndexError\<close> on an empty \<open>e\<close>.
\<close>

type_synonym r6_state = "bytes \<times> int \<times> byte"

definition r6_round :: "primitives \<Rightarrow> bytes \<Rightarrow> bytes \<Rightarrow> r6_state \<Rightarrow> error + r6_state" where
  "r6_round P pw_bytes u st =
     (case st of (k, round_no, last_byte_val) \<Rightarrow>
        let k1 = concat (replicate 64 (pw_bytes @ k @ u))
        in case aes_cbc_no_padding_encrypt P (take 16 k) k1 (py_slice 16 32 k) of
             Inl err \<Rightarrow> Inl err
           | Inr (iv, e) \<Rightarrow>
               let i = bytes_mod_3 (take 16 e);
                   next_hash = (if i = 0 then sha256 P else if i = 1 then sha384 P else sha512 P);
                   k' = next_hash e
               in if e = [] then Inl IndexError
                  else Inr (k', round_no + 1, last e))"

definition r6_continue :: "r6_state \<Rightarrow> bool" where
  "r6_continue st =
     (case st of (k, round_no, last_byte_val) \<Rightarrow>
        round_no < 64 \<or> uint last_byte_val > round_no - 32)"

function r6_loop :: "primitives \<Rightarrow> bytes \<Rightarrow> bytes \<Rightarrow> r6_state \<Rightarrow> error + bytes" where
  "r6_loop P pw_bytes u st =
     (if r6_continue st
      then (case r6_round P pw_bytes u st of
              Inl err \<Rightarrow> Inl err
            | Inr st' \<Rightarrow> r6_loop P pw_bytes u st')
      else Inr (take 32 (fst st)))"
  by pat_completeness auto
termination
proof (relation "measure (\<lambda>(P, pw_bytes, u, k, round_no, last_byte_val). nat (287 - round_no))")
  show "wf (measure (\<lambda>(P, pw_bytes, u, k, round_no, last_byte_val). nat (287 - round_no)))"
    by simp
next
  fix P :: primitives and pw_bytes u :: bytes and st st' :: r6_state
  assume go: "r6_continue st" and step: "r6_round P pw_bytes u st = Inr st'"
  obtain k round_no last_byte_val where st: "st = (k, round_no, last_byte_val)"
    by (cases st) auto
  have "uint last_byte_val < 256" using uint_lt2p[of last_byte_val] by simp
  with go have small: "round_no < 287" by (auto simp: r6_continue_def st)
  from step obtain k' l' where "st' = (k', round_no + 1, l')"
    by (auto simp: r6_round_def st Let_def split: sum.splits prod.splits if_splits)
  with small show "((P, pw_bytes, u, st'), (P, pw_bytes, u, st)) \<in>
      measure (\<lambda>(P, pw_bytes, u, k, round_no, last_byte_val). nat (287 - round_no))"
    by (simp add: st)
qed

declare r6_loop.simps [simp del]

text \<open>
  \<^verbatim>\<open>_r6_hash_algo\<close>: the first digest, the two assertions, and the loop started with
  \<^verbatim>\<open>round_no = last_byte_val = 0\<close>. A \<^verbatim>\<open>u_entry\<close> that is \<^verbatim>\<open>None\<close> or empty is false in
  \<^verbatim>\<open>if u_entry\<close> and in \<^verbatim>\<open>u_entry or b''\<close>.
\<close>

definition r6_hash_algo :: "primitives \<Rightarrow> bytes \<Rightarrow> bytes \<Rightarrow> bytes option \<Rightarrow> error + bytes" where
  "r6_hash_algo P pw_bytes current_salt u_entry =
     (let u = (case u_entry of None \<Rightarrow> [] | Some x \<Rightarrow> x)
      in if length current_salt \<noteq> 8 then Inl AssertionError
         else if u \<noteq> [] \<and> length u \<noteq> 48 then Inl AssertionError
         else r6_loop P pw_bytes u (sha256 P (pw_bytes @ current_salt @ u), 0, 0))"

text \<open>
  The state after \<open>n\<close> passes through the loop body, whether or not the loop would go
  on that long: the yardstick for the number of rounds that \<^verbatim>\<open>_r6_hash_algo\<close> makes.
\<close>

fun r6_rounds :: "primitives \<Rightarrow> bytes \<Rightarrow> bytes \<Rightarrow> nat \<Rightarrow> r6_state \<Rightarrow> error + r6_state" where
  "r6_rounds P pw_bytes u 0 st = Inr st"
| "r6_rounds P pw_bytes u (Suc n) st =
     (case r6_round P pw_bytes u st of
        Inl err \<Rightarrow> Inl err
      | Inr st' \<Rightarrow> r6_rounds P pw_bytes u n st')"

text \<open>
  What the code relies on in the primitives: the digests have 32, 48 and 64 bytes, and
  AES in CBC mode without padding, given a key and an initialisation vector of 16 bytes
  and data of a positive multiple of 16 bytes, returns the vector and as many bytes of
  ciphertext as there were of data.
\<close>

definition primitives_ok :: "primitives \<Rightarrow> bool" where
  "primitives_ok P \<longleftrightarrow>
     (\<forall>x. length (sha256 P x) = 32 \<and> length (sha384 P x) = 48 \<and> length (sha512 P x) = 64) \<and>
     (\<forall>key data iv. length key = 16 \<and> length iv = 16 \<and> data \<noteq> [] \<and> 16 dvd length data \<longrightarrow>
        (\<exists>e. aes_cbc_no_padding_encrypt P key data iv = Inr (iv, e) \<and> length e = length data))"

definition digest_sized :: "bytes \<Rightarrow> bool" where
  "digest_sized k \<longleftrightarrow> length k = 32 \<or> length k = 48 \<or> length k = 64"

text \<open>
  \<^verbatim>\<open>struct.unpack('<i', b)[0]\<close>: exactly 4 bytes, low-order byte first, read in two's
  complement.
\<close>

definition struct_unpack_le_i :: "bytes \<Rightarrow> error + int" where
  "struct_unpack_le_i b =
     (if length b \<noteq> 4 then Inl StructError
      else let u = foldr (\<lambda>x acc. uint x + 256 * acc) b 0
           in Inr (if u < 2 ^ 31 then u else u - 2 ^ 32))"

definition r6_password_authenticate ::
  "primitives \<Rightarrow> bytes \<Rightarrow> R6KeyEntry \<Rightarrow> bytes option \<Rightarrow> error + bool" where
  "r6_password_authenticate P pw_bytes entry u_entry =
     (case r6_hash_algo P pw_bytes (validation_salt entry) u_entry of
        Inl err \<Rightarrow> Inl err
      | Inr purported_hash \<Rightarrow> Inr (purported_hash = hash_value entry))"

text \<open>
  \<^verbatim>\<open>_r6_derive_file_key\<close>; \<open>e_entry\<close> is the \<^verbatim>\<open>/OE\<close> or \<^verbatim>\<open>/UE\<close> attribute of the handler,
  which is \<^verbatim>\<open>None\<close> in a legacy handler, where \<^verbatim>\<open>len\<close> raises \<^verbatim>\<open>TypeError\<close>.
\<close>

definition r6_derive_file_key ::
  "primitives \<Rightarrow> bytes \<Rightarrow> R6KeyEntry \<Rightarrow> bytes option \<Rightarrow> bytes option \<Rightarrow> error + bytes" where
  "r6_derive_file_key P pw_bytes entry e_entry u_entry =
     (case r6_hash_algo P pw_bytes (key_salt entry) u_entry of
        Inl err \<Rightarrow> Inl err
      | Inr interm_key \<Rightarrow>
          (case e_entry of
             None \<Rightarrow> Inl TypeError
           | Some e \<Rightarrow>
               if length e \<noteq> 32 then Inl AssertionError
               else aes_cbc_no_padding_decrypt P interm_key e (replicate 16 0)))"

definition EXPECTED_PERMS_8 :: "byte \<rightharpoonup> bool" where
  "EXPECTED_PERMS_8 = [0x54 \<mapsto> True, 0x46 \<mapsto> False]"

text \<open>
  The second half of \<^verbatim>\<open>_authenticate_r6\<close>, from the comment "check the file key against
  the perms entry" on: \<open>result\<close> and \<open>key\<close> are the variables set by the branch taken
  before. \<^verbatim>\<open>decrypted_p_entry[8]\<close> raises \<^verbatim>\<open>IndexError\<close> on fewer than 9 bytes, which the
  \<^verbatim>\<open>except KeyError\<close> does not catch.
\<close>

definition r6_check_perms ::
  "primitives \<Rightarrow> security_handler \<Rightarrow> AuthResult \<Rightarrow> bytes \<Rightarrow> error + AuthResult \<times> bytes option" where
  "r6_check_perms P h result key =
     (case encrypted_perms h of
        None \<Rightarrow> Inl TypeError
      | Some ep \<Rightarrow>
          (case aes_cbc_no_padding_decrypt P key ep (replicate 16 0) of
             Inl err \<Rightarrow> Inl err
           | Inr decrypted_p_entry \<Rightarrow>
               let perms_ok = (py_slice 9 12 decrypted_p_entry = [0x61, 0x64, 0x62])
               in case struct_unpack_le_i (take 4 decrypted_p_entry) of
                    Inl err \<Rightarrow> Inl err
                  | Inr v \<Rightarrow>
                      let perms_ok = (perms_ok \<and> perms h = v)
                      in if length decrypted_p_entry \<le> 8 then Inl IndexError
                         else
                           let perms_ok =
                                 (case EXPECTED_PERMS_8 (decrypted_p_entry ! 8) of
                                    Some decr_metadata_flag \<Rightarrow>
                                      perms_ok \<and> decr_metadata_flag = encrypt_metadata h
                                  | None \<Rightarrow> False)
                           in if \<not> perms_ok then Inl PdfError_PermsTampered
                              else Inr (result, Some key)))"

text \<open>\<^verbatim>\<open>_authenticate_r6\<close>; a password is a byte string.\<close>

definition authenticate_r6 :: "primitives \<Rightarrow> r6_procedure" where
  "authenticate_r6 P h password =
     (let pw_bytes = r6_normalise_pw password
      in case R6KeyEntry_from_bytes (odata h) of
           Inl err \<Rightarrow> Inl err
         | Inr o_entry_split \<Rightarrow>
             (case R6KeyEntry_from_bytes (udata h) of
                Inl err \<Rightarrow> Inl err
              | Inr u_entry_split \<Rightarrow>
                  (case r6_password_authenticate P pw_bytes o_entry_split (Some (udata h)) of
                     Inl err \<Rightarrow> Inl err
                   | Inr True \<Rightarrow>
                       (case r6_derive_file_key P pw_bytes o_entry_split (oeseed h) (Some (udata h)) of
                          Inl err \<Rightarrow> Inl err
                        | Inr key \<Rightarrow> r6_check_perms P h OWNER key)
                   | Inr False \<Rightarrow>
                       (case r6_password_authenticate P pw_bytes u_entry_split None of
                          Inl err \<Rightarrow> Inl err
                        | Inr True \<Rightarrow>
                            (case r6_derive_file_key P pw_bytes u_entry_split (ueseed h) None of
                               Inl err \<Rightarrow> Inl err
                             | Inr key \<Rightarrow> r6_check_perms P h USER key)
                        | Inr False \<Rightarrow> Inr (FAILED, None)))))"

text \<open>
  What \<^verbatim>\<open>StandardSecurityHandler.__init__\<close> checks for revision 6: \<^verbatim>\<open>/O\<close> and \<^verbatim>\<open>/U\<close> of
  48 bytes, \<^verbatim>\<open>/OE\<close> and \<^verbatim>\<open>/UE\<close> of 32 bytes, \<^verbatim>\<open>/Perms\<close> of 16 bytes.
\<close>

definition r6_handler_wf :: "security_handler \<Rightarrow> bool" where
  "r6_handler_wf h \<longleftrightarrow>
     length (odata h) = 48 \<and> length (udata h) = 48 \<and>
     (case oeseed h of Some oe \<Rightarrow> length oe = 32 | None \<Rightarrow> False) \<and>
     (case ueseed h of Some ue \<Rightarrow> length ue = 32 | None \<Rightarrow> False) \<and>
     (case encrypted_perms h of Some ep \<Rightarrow> length ep = 16 | None \<Rightarrow> False)"

text \<open>
  The contract of decryption: with a key of 32 bytes, an initialisation vector of 16
  bytes and data of a positive multiple of 16 bytes, as many bytes of plaintext as there
  were of data.
\<close>

definition decrypt_ok :: "primitives \<Rightarrow> bool" where
  "decrypt_ok P \<longleftrightarrow>
     (\<forall>key data iv. length key = 32 \<and> length iv = 16 \<and> data \<noteq> [] \<and> 16 dvd length data \<longrightarrow>
        (\<exists>p. aes_cbc_no_padding_decrypt P key data iv = Inr p \<and> length p = length data))"

text \<open>
  The condition of the specification on the decrypted \<^verbatim>\<open>/Perms\<close> block \<open>d\<close>: bytes 9 to
  11 are \<^verbatim>\<open>adb\<close>, the first four bytes are the permission flags as a little-endian signed
  word, and byte 8 is \<^verbatim>\<open>T\<close> when metadata is encrypted and \<^verbatim>\<open>F\<close> when it is not.
\<close>

definition perms_entry_valid :: "security_handler \<Rightarrow> bytes \<Rightarrow> bool" where
  "perms_entry_valid h d \<longleftrightarrow>
     [d ! 9, d ! 10, d ! 11] = [0x61, 0x64, 0x62] \<and>
     sint (word_rcat (rev (take 4 d)) :: 32 word) = perms h \<and>
     d ! 8 = (if encrypt_metadata h then 0x54 else 0x46)"

text \<open>
  A revision 6 handler for the stand-in primitives: under them a password hashes to its
  first byte followed by zeros, and decryption returns the data, so the owner password
  starts with 9, the user password with 7, the keys are the \<^verbatim>\<open>/OE\<close> and \<^verbatim>\<open>/UE\<close> entries,
  and \<^verbatim>\<open>/Perms\<close> holds the block for permissions \<open>-44\<close> with encrypted metadata.
\<close>

definition toy_r6_handler :: security_handler where
  "toy_r6_handler = \<lparr> revision = AES256, keylen = 32, perms = - 44,
     odata = 9 # replicate 31 0 @ [1, 2, 3, 4, 5, 6, 7, 8] @ [8, 7, 6, 5, 4, 3, 2, 1],
     udata = 7 # replicate 31 0 @ [11, 12, 13, 14, 15, 16, 17, 18] @ [18, 17, 16, 15, 14, 13, 12, 11],
     oeseed = Some (replicate 32 0xAA), ueseed = Some (replicate 32 0xBB),
     encrypted_perms = Some [0xd4, 0xff, 0xff, 0xff, 0xff, 0xff, 0xff, 0xff,
                             0x54, 0x61, 0x64, 0x62, 1, 2, 3, 4],
     encrypt_metadata = True, handler_shared_key = None, handler_auth_failed = False \<rparr>"

section \<open>Verified properties\<close>

subsection \<open>The history lists are ordered by section\<close>

lemma history_ordered_init: "history_ordered XRefCache_init"
  by (simp add: history_ordered_def XRefCache_init_def)

lemma free_ref_history:
  "free_ref idnum ng c = Inr c' \<Longrightarrow> history c' = history c \<and> xref_sections c' = xref_sections c"
  by (auto simp: free_ref_def Let_def split: if_splits option.splits sum.splits)

lemma free_ref_expected:
  "free_ref idnum ng c = Inr c' \<Longrightarrow>
     previous_expected_free c' = previous_expected_free c \<or>
     previous_expected_free c' = AList.delete idnum (previous_expected_free c)"
  by (auto simp: free_ref_def Let_def split: if_splits option.splits sum.splits)

lemma put_ref_history:
  "put_ref idnum g start c = Inr c' \<Longrightarrow>
     xref_sections c' = xref_sections c \<and>
     history c' = (history c)((g, idnum) := history c (g, idnum) @ [(xref_sections c, Offset start)])"
  by (auto simp: put_ref_def Let_def split: if_splits option.splits)

lemma put_obj_stream_ref_history:
  "xref_sections (put_obj_stream_ref idnum n i c) = xref_sections c \<and>
   history (put_obj_stream_ref idnum n i c) =
     (history c)((0, idnum) := history c (0, idnum) @ [(xref_sections c, InObjStream n i)])"
  by (auto simp: put_obj_stream_ref_def Let_def)

lemma history_ordered_append:
  assumes "history_ordered c" "xref_sections c' = xref_sections c"
    "history c' = (history c)(k := history c k @ [(xref_sections c, m)])"
  shows "history_ordered c'"
  using assms unfolding history_ordered_def
  by (auto simp: sorted_append)

lemma apply_entry_ordered:
  "apply_entry e c = Inr c' \<Longrightarrow> history_ordered c \<Longrightarrow> history_ordered c'"
proof (cases e)
  case (InUse n g off)
  assume "apply_entry e c = Inr c'" "history_ordered c"
  with InUse show ?thesis
    using put_ref_history[of n g off c c'] history_ordered_append by auto
next
  case (Compressed n a b)
  assume "apply_entry e c = Inr c'" "history_ordered c"
  with Compressed show ?thesis
    using put_obj_stream_ref_history[of n a b c] history_ordered_append by auto
next
  case (Free n g)
  assume "apply_entry e c = Inr c'" "history_ordered c"
  with Free show ?thesis
    using free_ref_history[of n g c c'] by (auto simp: history_ordered_def)
next
  case Ignored
  assume "apply_entry e c = Inr c'" "history_ordered c"
  with Ignored show ?thesis by simp
qed

lemma apply_entries_ordered:
  "apply_entries es c = Inr c' \<Longrightarrow> history_ordered c \<Longrightarrow> history_ordered c'"
  by (induction es arbitrary: c) (auto split: sum.splits dest: apply_entry_ordered)

lemma read_section_ordered:
  "read_section sec c = Inr c' \<Longrightarrow> history_ordered c \<Longrightarrow> history_ordered c'"
proof -
  assume a: "read_section sec c = Inr c'" and h: "history_ordered c"
  let ?c0 = "c\<lparr> xref_locations := xref_locations c @ [fst sec] \<rparr>"
  have h0: "history_ordered ?c0" using h by (simp add: history_ordered_def)
  from a obtain c1 where c1: "apply_entries (snd sec) ?c0 = Inr c1" and c': "c' = next_section c1"
    by (auto simp: read_section_def split: sum.splits)
  have "history_ordered c1" using apply_entries_ordered[OF c1 h0] .
  then show ?thesis unfolding c' history_ordered_def next_section_def by fastforce
qed

lemma read_sections_ordered:
  "read_sections secs c = Inr c' \<Longrightarrow> history_ordered c \<Longrightarrow> history_ordered c'"
  by (induction secs arbitrary: c) (auto split: sum.splits dest: read_section_ordered)

lemma scan_history_find:
  "scan_history r mx h = map_option snd (find (\<lambda>e. fst e \<ge> mx - r) h)"
  by (induction h) (auto)

lemma find_sorted_least:
  "sorted (map fst xs) \<Longrightarrow> find P xs = Some e \<Longrightarrow> e' \<in> set xs \<Longrightarrow> P e' \<Longrightarrow> fst e \<le> fst e'"
  by (induction xs) (auto split: if_splits)

text \<open>
  C1. On a cache built by the reader, \<^verbatim>\<open>get_historical_ref(ref, r)\<close> returns the marker
  of the first entry of the history of \<open>ref\<close> (stored newest first) whose section index is
  at least \<open>total - 1 - r\<close>, and raises the read error when there is none. The entry
  returned is a write of revision at most \<open>r\<close>, and no write of revision at most \<open>r\<close>
  is more recent.
\<close>

theorem get_historical_ref_most_recent:
  assumes built: "read_sections secs XRefCache_init = Inr c"
  shows "get_historical_ref c (idnum, generation) r =
           (case find (\<lambda>e. fst e \<ge> total_revisions c - 1 - r) (history c (generation, idnum)) of
              Some e \<Rightarrow> Inr (snd e)
            | None \<Rightarrow> Inl (PdfReadError (NotInHistory idnum generation r)))
         \<and> (\<forall>m. get_historical_ref c (idnum, generation) r = Inr m \<longrightarrow>
               (\<exists>s. (s, m) \<in> set (history c (generation, idnum)) \<and> revision_of c s \<le> r \<and>
                    (\<forall>e' \<in> set (history c (generation, idnum)).
                        revision_of c (fst e') \<le> r \<longrightarrow> revision_of c (fst e') \<le> revision_of c s)))
         \<and> ((\<exists>err. get_historical_ref c (idnum, generation) r = Inl err) \<longleftrightarrow>
               (\<forall>e' \<in> set (history c (generation, idnum)). \<not> revision_of c (fst e') \<le> r))"
proof -
  let ?h = "history c (generation, idnum)"
  let ?P = "\<lambda>e::int \<times> marker. fst e \<ge> total_revisions c - 1 - r"
  have ord: "history_ordered c"
    using read_sections_ordered[OF built history_ordered_init] .
  then have srt: "sorted (map fst ?h)" by (simp add: history_ordered_def)
  have eq: "get_historical_ref c (idnum, generation) r =
           (case find ?P ?h of Some e \<Rightarrow> Inr (snd e)
            | None \<Rightarrow> Inl (PdfReadError (NotInHistory idnum generation r)))"
    by (simp add: get_historical_ref_def scan_history_find total_revisions_def split: option.splits)
  have P_rev: "\<And>e. ?P e \<longleftrightarrow> revision_of c (fst e) \<le> r"
    by (auto simp: revision_of_def total_revisions_def)
  have part2: "\<exists>s. (s, m) \<in> set ?h \<and> revision_of c s \<le> r \<and>
                 (\<forall>e' \<in> set ?h. revision_of c (fst e') \<le> r \<longrightarrow> revision_of c (fst e') \<le> revision_of c s)"
    if "get_historical_ref c (idnum, generation) r = Inr m" for m
  proof -
    from that eq obtain e where f: "find ?P ?h = Some e" and m: "m = snd e"
      by (auto split: option.splits)
    from f have "e \<in> set ?h" "?P e"
      by (auto simp: find_Some_iff)
    moreover have "fst e \<le> fst e'" if "e' \<in> set ?h" "?P e'" for e'
      using find_sorted_least[OF srt f that] .
    ultimately show ?thesis
      using m P_rev by (intro exI[of _ "fst e"]) (auto simp: revision_of_def)
  qed
  have part3: "(\<exists>err. get_historical_ref c (idnum, generation) r = Inl err) \<longleftrightarrow>
               (\<forall>e' \<in> set ?h. \<not> revision_of c (fst e') \<le> r)"
  proof -
    have "(\<exists>err. get_historical_ref c (idnum, generation) r = Inl err) \<longleftrightarrow> find ?P ?h = None"
      unfolding eq by (auto split: option.splits)
    also have "\<dots> \<longleftrightarrow> (\<forall>e' \<in> set ?h. \<not> ?P e')"
      by (auto simp: find_None_iff)
    finally show ?thesis using P_rev by simp
  qed
  from eq part2 part3 show ?thesis by blast
qed

lemmas xref_eval = read_section_def put_ref_def free_ref_def put_obj_stream_ref_def next_section_def
  used_later_def XRefCache_init_def Let_def

text \<open>
  Three revisions, object (5, 0) written in revisions 0 and 2 and object (6, 0) in
  revision 1: at revision 1 the marker of revision 0 is returned.
\<close>

theorem get_historical_ref_most_recent_witness:
  "\<exists>c. read_sections [(900, [InUse 5 0 200]), (500, [InUse 6 0 150]), (100, [InUse 5 0 10])]
          XRefCache_init = Inr c
       \<and> get_historical_ref c (5, 0) 1 = Inr (Offset 10)
       \<and> find (\<lambda>e. fst e \<ge> total_revisions c - 1 - 1) (history c (0, 5)) = Some (2, Offset 10)
       \<and> get_historical_ref c (5, 0) 2 = Inr (Offset 200)
       \<and> get_historical_ref c (6, 0) 0 = Inl (PdfReadError (NotInHistory 6 0 0))"
proof -
  let ?secs = "[(900, [InUse 5 0 200]), (500, [InUse 6 0 150]), (100, [InUse 5 0 10])]"
  obtain c where c: "read_sections ?secs XRefCache_init = Inr c"
    by (simp add: xref_eval)
  have h5: "history c (0, 5) = [(0, Offset 200), (2, Offset 10)]"
    and h6: "history c (0, 6) = [(1, Offset 150)]"
    and n: "total_revisions c = 3"
    using c by (auto simp: xref_eval total_revisions_def)
  show ?thesis
    using c h5 h6 n
      get_historical_ref_most_recent[OF c, of 5 0 1]
      get_historical_ref_most_recent[OF c, of 5 0 2]
      get_historical_ref_most_recent[OF c, of 6 0 0]
    by (intro exI[of _ c]) simp
qed

subsection \<open>Freeing object 0\<close>

text \<open>
  C10. \<^verbatim>\<open>free_ref(0, g)\<close> returns at its first statement for every \<open>g\<close>: the cache
  that comes back is the cache that went in, field by field, and so the entry of object
  0 at the head of the free list of a cross-reference section is no free event.
\<close>

theorem free_ref_object_zero_noop:
  "free_ref 0 g c = Inr c \<and> apply_entry (Free 0 g) c = Inr c"
  by (simp add: free_ref_def)

subsection \<open>Expected free events\<close>

lemma put_ref_registers:
  "put_ref idnum g start c = Inr c' \<Longrightarrow> 0 < g \<Longrightarrow>
     map_of (previous_expected_free c') idnum = Some g"
  by (auto simp: put_ref_def Let_def update_conv' split: if_splits option.splits)

lemma put_ref_keeps_expected:
  "put_ref n g start c = Inr c' \<Longrightarrow> map_of (previous_expected_free c) idnum = Some x \<Longrightarrow>
     map_of (previous_expected_free c') idnum = Some x"
  by (auto simp: put_ref_def Let_def update_conv' split: if_splits option.splits)

lemma free_ref_keeps_expected:
  "free_ref n ng c = Inr c' \<Longrightarrow> n \<noteq> idnum \<Longrightarrow>
     map_of (previous_expected_free c') idnum = map_of (previous_expected_free c) idnum"
  by (auto simp: free_ref_def Let_def delete_conv' split: if_splits option.splits sum.splits)

lemma put_obj_stream_ref_expected:
  "previous_expected_free (put_obj_stream_ref n a b c) = previous_expected_free c"
  by (simp add: put_obj_stream_ref_def Let_def)

lemma apply_entry_keeps_expected:
  assumes "apply_entry e c = Inr c'" "\<forall>ng. e \<noteq> Free idnum ng"
    "map_of (previous_expected_free c) idnum = Some x"
  shows "map_of (previous_expected_free c') idnum = Some x"
proof (cases e)
  case (InUse n g off)
  with assms show ?thesis using put_ref_keeps_expected[of n g off c c' idnum x] by simp
next
  case (Compressed n a b)
  with assms show ?thesis by (auto simp: put_obj_stream_ref_expected)
next
  case (Free n ng)
  with assms have "n \<noteq> idnum" by auto
  with Free assms show ?thesis using free_ref_keeps_expected[of n ng c c' idnum] by simp
next
  case Ignored
  with assms show ?thesis by simp
qed

lemma apply_entries_keep_expected:
  "apply_entries es c = Inr c' \<Longrightarrow> \<forall>ng. Free idnum ng \<notin> set es \<Longrightarrow>
     map_of (previous_expected_free c) idnum = Some x \<Longrightarrow>
     map_of (previous_expected_free c') idnum = Some x"
proof (induction es arbitrary: c)
  case Nil
  then show ?case by simp
next
  case (Cons e es)
  from Cons.prems(1) obtain c1 where e: "apply_entry e c = Inr c1"
    and es: "apply_entries es c1 = Inr c'"
    by (auto split: sum.splits)
  from Cons.prems(2) have ne: "\<forall>ng. e \<noteq> Free idnum ng" and rest: "\<forall>ng. Free idnum ng \<notin> set es"
    by auto
  have "map_of (previous_expected_free c1) idnum = Some x"
    using apply_entry_keeps_expected[OF e ne Cons.prems(3)] .
  then show ?case using Cons.IH[OF es rest] by simp
qed

lemma apply_entries_append:
  "apply_entries (xs @ ys) c =
     (case apply_entries xs c of Inl err \<Rightarrow> Inl err | Inr c' \<Rightarrow> apply_entries ys c')"
  by (induction xs arbitrary: c) (auto split: sum.splits)

lemma read_sections_append:
  "read_sections (xs @ ys) c =
     (case read_sections xs c of Inl err \<Rightarrow> Inl err | Inr c' \<Rightarrow> read_sections ys c')"
  by (induction xs arbitrary: c) (auto split: sum.splits)

lemma read_section_keeps_expected:
  assumes "read_section sec c = Inr c'" "\<forall>ng. Free idnum ng \<notin> set (snd sec)"
    "map_of (previous_expected_free c) idnum = Some x"
  shows "map_of (previous_expected_free c') idnum = Some x"
proof -
  let ?c0 = "c\<lparr> xref_locations := xref_locations c @ [fst sec] \<rparr>"
  from assms(1) obtain c1 where c1: "apply_entries (snd sec) ?c0 = Inr c1"
    and c': "c' = next_section c1"
    by (auto simp: read_section_def split: sum.splits)
  have "map_of (previous_expected_free ?c0) idnum = Some x" using assms(3) by simp
  from apply_entries_keep_expected[OF c1 assms(2) this]
  show ?thesis by (simp add: c' next_section_def)
qed

lemma read_sections_keep_expected:
  "read_sections secs c = Inr c' \<Longrightarrow> \<forall>sec \<in> set secs. \<forall>ng. Free idnum ng \<notin> set (snd sec) \<Longrightarrow>
     map_of (previous_expected_free c) idnum = Some x \<Longrightarrow>
     map_of (previous_expected_free c') idnum = Some x"
proof (induction secs arbitrary: c)
  case Nil
  then show ?case by simp
next
  case (Cons sec secs)
  from Cons.prems(1) obtain c1 where s: "read_section sec c = Inr c1"
    and ss: "read_sections secs c1 = Inr c'"
    by (auto split: sum.splits)
  have "map_of (previous_expected_free c1) idnum = Some x"
    using read_section_keeps_expected[OF s _ Cons.prems(3)] Cons.prems(2) by simp
  then show ?case using Cons.IH[OF ss] Cons.prems(2) by simp
qed

lemma unmatched_in_use_stays_expected:
  assumes secs: "secs = newer @ (loc, before @ InUse idnum generation offset # after) # older"
    and pos: "0 < generation"
    and nofree: "\<forall>ng. Free idnum ng \<notin> set after"
      "\<forall>sec \<in> set older. \<forall>ng. Free idnum ng \<notin> set (snd sec)"
    and ok: "read_sections secs c = Inr c'"
  shows "map_of (previous_expected_free c') idnum = Some generation"
proof -
  from ok obtain c1 where c1: "read_sections newer c = Inr c1"
    and r1: "read_sections ((loc, before @ InUse idnum generation offset # after) # older) c1 = Inr c'"
    unfolding secs read_sections_append by (auto split: sum.splits)
  from r1 obtain c2 where c2: "read_section (loc, before @ InUse idnum generation offset # after) c1 = Inr c2"
    and r2: "read_sections older c2 = Inr c'"
    by (auto split: sum.splits)
  let ?c0 = "c1\<lparr> xref_locations := xref_locations c1 @ [loc] \<rparr>"
  from c2 obtain c3 where c3: "apply_entries (before @ InUse idnum generation offset # after) ?c0 = Inr c3"
    and c2': "c2 = next_section c3"
    by (auto simp: read_section_def split: sum.splits)
  from c3 obtain c4 c5 where c4: "apply_entries before ?c0 = Inr c4"
    and c5: "put_ref idnum generation offset c4 = Inr c5"
    and c6: "apply_entries after c5 = Inr c3"
    unfolding apply_entries_append by (auto split: sum.splits)
  have "map_of (previous_expected_free c5) idnum = Some generation"
    using put_ref_registers[OF c5 pos] .
  then have "map_of (previous_expected_free c3) idnum = Some generation"
    using apply_entries_keep_expected[OF c6 nofree(1)] by simp
  then have "map_of (previous_expected_free c2) idnum = Some generation"
    by (simp add: c2' next_section_def)
  then show ?thesis
    using read_sections_keep_expected[OF r2 nofree(2)] by simp
qed

text \<open>
  C6. An in-use entry of generation above 0 that \<^verbatim>\<open>put_ref\<close> records leaves its
  generation in the expected-free dictionary under its object number. When no entry read
  after it (in the rest of its section or in an older section) frees that object number,
  \<^verbatim>\<open>_read_xrefs\<close> ends in an error, and so does \<^verbatim>\<open>read\<close>; if every section was read
  without an error, that error is the one listing the orphaned objects, the object of
  the entry among them. Whenever the dictionary is not empty after the sections are read,
  \<^verbatim>\<open>_read_xrefs\<close> raises that error.
\<close>

theorem unmatched_higher_generation_is_fatal:
  assumes secs: "secs = newer @ (loc, before @ InUse idnum generation offset # after) # older"
    and pos: "0 < generation"
    and nofree: "\<forall>ng. Free idnum ng \<notin> set after"
      "\<forall>sec \<in> set older. \<forall>ng. Free idnum ng \<notin> set (snd sec)"
  shows "(\<forall>c0 c1. put_ref idnum generation offset c0 = Inr c1 \<longrightarrow>
             map_of (previous_expected_free c1) idnum = Some generation)
       \<and> (\<exists>err. read_xrefs secs c = Inl err)
       \<and> (\<exists>err. read input_version stream_empty secs = Inl err)
       \<and> (\<forall>c'. read_sections secs c = Inr c' \<longrightarrow>
             (idnum, generation) \<in> set (previous_expected_free c') \<and>
             read_xrefs secs c =
               Inl (PdfReadError (OrphanedHigherGenerationObjects (previous_expected_free c'))))
       \<and> (\<forall>secs' c'. read_sections secs' c = Inr c' \<and> previous_expected_free c' \<noteq> [] \<longrightarrow>
             read_xrefs secs' c =
               Inl (PdfReadError (OrphanedHigherGenerationObjects (previous_expected_free c'))))"
proof -
  have reg: "\<forall>c0 c1. put_ref idnum generation offset c0 = Inr c1 \<longrightarrow>
             map_of (previous_expected_free c1) idnum = Some generation"
    using put_ref_registers pos by blast
  have orphan: "(idnum, generation) \<in> set (previous_expected_free c') \<and>
      read_xrefs secs c0 =
        Inl (PdfReadError (OrphanedHigherGenerationObjects (previous_expected_free c')))"
    if "read_sections secs c0 = Inr c'" for c0 c'
  proof -
    have m: "map_of (previous_expected_free c') idnum = Some generation"
      using unmatched_in_use_stays_expected[OF secs pos nofree that] .
    then have "(idnum, generation) \<in> set (previous_expected_free c')"
      by (rule map_of_SomeD)
    moreover from this have "previous_expected_free c' \<noteq> []" by auto
    ultimately show ?thesis using that by (simp add: read_xrefs_def)
  qed
  have fails: "\<exists>err. read_xrefs secs c0 = Inl err" for c0
  proof (cases "read_sections secs c0")
    case (Inl err)
    then show ?thesis by (simp add: read_xrefs_def)
  next
    case (Inr c')
    then show ?thesis using orphan by blast
  qed
  have rd: "\<exists>err. read input_version stream_empty secs = Inl err"
    using fails[of XRefCache_init] by (auto simp: read_def split: option.splits)
  have last: "\<forall>secs' c'. read_sections secs' c = Inr c' \<and> previous_expected_free c' \<noteq> [] \<longrightarrow>
             read_xrefs secs' c =
               Inl (PdfReadError (OrphanedHigherGenerationObjects (previous_expected_free c')))"
    by (simp add: read_xrefs_def)
  from reg fails[of c] rd orphan[of c] last show ?thesis by blast
qed

text \<open>
  Object 5 is in use with generation 1 in the newest section and the older section
  never frees it: reading fails with the error that names \<open>5 1 obj\<close>. With the freeing
  entry in the older section the same file is read without an error.
\<close>

theorem unmatched_higher_generation_is_fatal_witness:
  "(0::int) < 1
   \<and> read_xrefs [(900, [InUse 5 1 100]), (100, [InUse 6 0 10])] XRefCache_init =
       Inl (PdfReadError (OrphanedHigherGenerationObjects [(5, 1)]))
   \<and> read (Some (1, 7)) False [(900, [InUse 5 1 100]), (100, [InUse 6 0 10])] =
       Inl (PdfReadError (OrphanedHigherGenerationObjects [(5, 1)]))
   \<and> (\<exists>c. read (Some (1, 7)) False [(900, [InUse 5 1 100]), (100, [Free 5 1, InUse 6 0 10])] = Inr c)"
proof -
  let ?secs = "[(900, [InUse 5 1 100]), (100, [InUse 6 0 10])]"
  have shape: "?secs = [] @ (900, [] @ InUse 5 1 100 # []) # [(100, [InUse 6 0 10])]"
    by simp
  have pos: "(0::int) < 1" by simp
  have nf1: "\<forall>ng. Free 5 ng \<notin> set []" by simp
  have nf2: "\<forall>sec \<in> set [(100::int, [InUse 6 0 10])]. \<forall>ng. Free 5 ng \<notin> set (snd sec)" by simp
  note inst = unmatched_higher_generation_is_fatal[OF shape pos nf1 nf2,
      of XRefCache_init "Some (1, 7)" False]
  obtain c' where c': "read_sections ?secs XRefCache_init = Inr c'"
    by (simp add: xref_eval)
  have e: "previous_expected_free c' = [(5, 1)]"
    using c' by (auto simp: xref_eval)
  from inst c' e have x: "read_xrefs ?secs XRefCache_init =
       Inl (PdfReadError (OrphanedHigherGenerationObjects [(5, 1)]))"
    by auto
  then have r: "read (Some (1, 7)) False ?secs =
       Inl (PdfReadError (OrphanedHigherGenerationObjects [(5, 1)]))"
    by (simp add: read_def)
  have ok: "\<exists>c. read (Some (1, 7)) False [(900, [InUse 5 1 100]), (100, [Free 5 1, InUse 6 0 10])] = Inr c"
    by (simp add: read_def read_xrefs_def xref_eval)
  from pos x r ok show ?thesis by blast
qed

subsection \<open>Decoding the fields of a cross-reference stream\<close>

lemma be_unsigned_foldl:
  "foldl (\<lambda>acc b. acc * 256 + uint (b::byte)) a d = a * 256 ^ length d + be_unsigned d"
proof (induction d arbitrary: a)
  case Nil
  then show ?case by (simp add: be_unsigned_def)
next
  case (Cons x xs)
  have "foldl (\<lambda>acc b. acc * 256 + uint b) a (x # xs) =
        foldl (\<lambda>acc b. acc * 256 + uint b) (a * 256 + uint x) xs" by simp
  also have "\<dots> = (a * 256 + uint x) * 256 ^ length xs + be_unsigned xs"
    by (rule Cons.IH)
  also have "be_unsigned (x # xs) = uint x * 256 ^ length xs + be_unsigned xs"
    using Cons.IH[of "uint x"] by (simp add: be_unsigned_def)
  then have "(a * 256 + uint x) * 256 ^ length xs + be_unsigned xs =
             a * 256 ^ length (x # xs) + be_unsigned (x # xs)"
    by (simp add: algebra_simps)
  finally show ?case .
qed

lemma be_unsigned_Cons:
  "be_unsigned (x # xs) = uint x * 256 ^ length xs + be_unsigned xs"
  using be_unsigned_foldl[of "uint x" xs] by (simp add: be_unsigned_def)

lemma be_unsigned_bounds: "0 \<le> be_unsigned d \<and> be_unsigned d < 256 ^ length d"
proof (induction d)
  case Nil
  then show ?case by (simp add: be_unsigned_def)
next
  case (Cons x xs)
  have x: "0 \<le> uint x" "uint x \<le> 255"
    using uint_lt2p[of x] by simp_all
  have "uint x * 256 ^ length xs \<le> 255 * 256 ^ length xs"
    using x by (simp add: mult_right_mono)
  moreover have "0 \<le> uint x * 256 ^ length xs" using x by simp
  ultimately have "0 \<le> uint x * 256 ^ length xs + be_unsigned xs"
    and "uint x * 256 ^ length xs + be_unsigned xs < 256 * 256 ^ length xs"
    using Cons.IH by linarith+
  then show ?case by (simp add: be_unsigned_Cons)
qed

lemma be_unsigned_zero_padding: "be_unsigned (replicate k 0 @ d) = be_unsigned d"
  by (induction k) (simp_all add: be_unsigned_Cons be_unsigned_def)

lemma convert_to_int_narrow:
  assumes "0 < sz" "sz \<le> 7" "length d = nat sz"
  shows "convert_to_int d sz = Inr (be_unsigned d)"
proof -
  have len: "length (replicate (nat (8 - sz)) (0::byte) @ d) = 8"
    using assms by simp
  have "be_unsigned d < 256 ^ length d" using be_unsigned_bounds by blast
  also have "(256::int) ^ length d \<le> 256 ^ 7"
    using assms by (intro power_increasing) simp_all
  finally have small: "be_unsigned d < 2 ^ 63" by simp
  show ?thesis
    using assms len small
    by (simp add: convert_to_int_def struct_unpack_be_q_def be_unsigned_zero_padding)
qed

lemma convert_to_int_eight:
  assumes "length d = 8"
  shows "convert_to_int d 8 =
     Inr (if be_unsigned d < 2 ^ 63 then be_unsigned d else be_unsigned d - 2 ^ 64)"
  using assms by (simp add: convert_to_int_def struct_unpack_be_q_def Let_def)

lemma get_entry_narrow:
  assumes "ix < length entry_sizes" "0 < entry_sizes ! ix" "entry_sizes ! ix \<le> 7"
    "nat (entry_sizes ! ix) \<le> length stream_data"
  shows "get_entry entry_sizes ix stream_data =
     (Inr (be_unsigned (take (nat (entry_sizes ! ix)) stream_data)),
      drop (nat (entry_sizes ! ix)) stream_data)"
  using assms by (simp add: get_entry_def convert_to_int_narrow)

lemma get_entry_width_zero:
  assumes "ix < length entry_sizes" "entry_sizes ! ix = 0"
  shows "get_entry entry_sizes ix stream_data = (Inr (if ix = 0 then 1 else 0), stream_data)"
  using assms by (simp add: get_entry_def)

text \<open>
  C7. The claim that every field of positive width is decoded as the big-endian
  unsigned integer of its bytes fails in \<^verbatim>\<open>convert_to_int\<close>. For a width of 9 the bytes
  \<open>00 00 00 00 00 00 00 01 00\<close>, whose big-endian value is 256, are decoded as 2; for
  a width of 8 the bytes \<open>FF FF FF FF FF FF FF FF\<close>, whose big-endian unsigned value is
  \<open>2^64 - 1\<close>, are decoded as -1.
\<close>

theorem convert_to_int_wide_field:
  "convert_to_int [0, 0, 0, 0, 0, 0, 0, 1, 0] 9 = Inr 2
   \<and> be_unsigned [0, 0, 0, 0, 0, 0, 0, 1, 0] = 256
   \<and> get_entry [1, 9, 1] 1 [0, 0, 0, 0, 0, 0, 0, 1, 0, 7] = (Inr 2, [7])
   \<and> convert_to_int [255, 255, 255, 255, 255, 255, 255, 255] 8 = Inr (- 1)
   \<and> be_unsigned [255, 255, 255, 255, 255, 255, 255, 255] = 2 ^ 64 - 1"
  by (simp add: get_entry_def convert_to_int_def struct_unpack_be_q_def be_unsigned_def
      enumerate_eq_zip upt_rec)

subsection \<open>The lazily derived shared key of a crypt filter\<close>

text \<open>
  C8. With no key cached and the flag not set, reading \<^verbatim>\<open>shared_key\<close> calls
  \<^verbatim>\<open>derive_shared_encryption_key\<close> and stores the key it returns in the filter. Once a key
  is stored, every read returns that key and leaves the filter and the outside state as
  they are, whatever the flag and the derivation would do. With no key cached and the
  flag set, the read raises the authentication error and the outside state is the one
  before the read, whatever the derivation would do.
\<close>

theorem shared_key_lazy_cached:
  "(filter_shared_key f = None \<and> auth_failed s = Inr False \<and> derive s = (Inr key, s') \<longrightarrow>
      shared_key auth_failed derive (f, s) = (Inr key, f\<lparr> filter_shared_key := Some key \<rparr>, s'))
   \<and> shared_key auth_failed2 derive2 (f\<lparr> filter_shared_key := Some key \<rparr>, t) =
        (Inr key, f\<lparr> filter_shared_key := Some key \<rparr>, t)
   \<and> (filter_shared_key f = None \<and> auth_failed3 s = Inr True \<longrightarrow>
        shared_key auth_failed3 derive3 (f, s) = (Inl (PdfReadError AuthenticationFailed), f, s))"
  by (simp add: shared_key_def)

text \<open>
  The outside state counts the calls of the derivation: the first read makes one call,
  the second read none, and a read with the flag set none.
\<close>

theorem shared_key_lazy_cached_witness:
  "shared_key (\<lambda>n::nat. Inr False) (\<lambda>n. (Inr [1, 2, 3], Suc n)) (\<lparr> filter_shared_key = None \<rparr>, 0) =
     (Inr [1, 2, 3], \<lparr> filter_shared_key = Some [1, 2, 3] \<rparr>, 1)
   \<and> shared_key (\<lambda>n::nat. Inr False) (\<lambda>n. (Inr [1, 2, 3], Suc n))
       (\<lparr> filter_shared_key = Some [1, 2, 3] \<rparr>, 1) =
     (Inr [1, 2, 3], \<lparr> filter_shared_key = Some [1, 2, 3] \<rparr>, 1)
   \<and> shared_key (\<lambda>n::nat. Inr True) (\<lambda>n. (Inr [1, 2, 3], Suc n)) (\<lparr> filter_shared_key = None \<rparr>, 0) =
     (Inl (PdfReadError AuthenticationFailed), \<lparr> filter_shared_key = None \<rparr>, 0)"
  using shared_key_lazy_cached[of "\<lparr> filter_shared_key = None \<rparr>" "\<lambda>n::nat. Inr False" 0
      "\<lambda>n. (Inr [1, 2, 3], Suc n)" "[1, 2, 3]" 1
      "\<lambda>n::nat. Inr False" "\<lambda>n. (Inr [1, 2, 3], Suc n)" 1
      "\<lambda>n::nat. Inr True" "\<lambda>n. (Inr [1, 2, 3], Suc n)"]
  by simp

subsection \<open>The authentication-failed flag of the standard handler\<close>

lemma authenticate_keeps_flag:
  "handler_auth_failed h \<Longrightarrow> handler_auth_failed (snd (authenticate a6 al h credential id1))"
  by (simp add: authenticate_def split: sum.splits option.splits prod.splits)

lemma authenticate_calls_keep_flag:
  "handler_auth_failed h \<Longrightarrow> handler_auth_failed (authenticate_calls a6 al h calls)"
  by (induction calls arbitrary: h) (auto simp: authenticate_keeps_flag)

text \<open>
  C9. A call of \<^verbatim>\<open>authenticate\<close> that gets no key sets \<^verbatim>\<open>_auth_failed\<close>; the flag is
  still set after any further calls, and after a later call that gets a key and stores
  it. On that handler \<^verbatim>\<open>get_file_encryption_key\<close> returns the key, and yet a standard
  crypt filter bound to it that has no key of its own raises the authentication error
  when its \<^verbatim>\<open>shared_key\<close> is read.
\<close>

theorem failed_authentication_latches:
  assumes failed: "authenticate_inner a6 al h credential1 id1 = Inr (res1, None)"
    and h1: "h1 = snd (authenticate a6 al h credential1 id1)"
    and later: "hm = authenticate_calls a6 al h1 calls"
    and succeeded: "authenticate_inner a6 al hm credential2 id2 = Inr (res2, Some key)"
    and h2: "h2 = snd (authenticate a6 al hm credential2 id2)"
    and nokey: "filter_shared_key f = None"
  shows "handler_auth_failed h1 \<and> handler_auth_failed hm \<and> handler_auth_failed h2
       \<and> fst (authenticate a6 al hm credential2 id2) = Inr res2
       \<and> handler_shared_key h2 = Some key
       \<and> get_file_encryption_key h2 = Inr key
       \<and> standard_shared_key (f, Some h2) = (Inl (PdfReadError AuthenticationFailed), f, Some h2)"
proof -
  have f1: "handler_auth_failed h1"
    using failed by (simp add: h1 authenticate_def)
  then have fm: "handler_auth_failed hm"
    unfolding later by (rule authenticate_calls_keep_flag)
  have h2_eq: "h2 = hm\<lparr> handler_shared_key := Some key \<rparr>"
    and res: "fst (authenticate a6 al hm credential2 id2) = Inr res2"
    using succeeded by (simp_all add: h2 authenticate_def)
  have f2: "handler_auth_failed h2" using fm by (simp add: h2_eq)
  have k: "handler_shared_key h2 = Some key" by (simp add: h2_eq)
  then have g: "get_file_encryption_key h2 = Inr key"
    by (simp add: get_file_encryption_key_def)
  have "standard_shared_key (f, Some h2) = (Inl (PdfReadError AuthenticationFailed), f, Some h2)"
    using nokey f2 by (simp add: standard_shared_key_def shared_key_def standard_auth_failed_def)
  with f1 fm f2 res k g show ?thesis by blast
qed

text \<open>
  On the example handler: a wrong password, then the right one.
\<close>

theorem failed_authentication_latches_witness:
  "fst (authenticate example_r6 example_legacy example_handler [0] None) = Inr FAILED
   \<and> (let h1 = snd (authenticate example_r6 example_legacy example_handler [0] None);
           r2 = authenticate example_r6 example_legacy h1 [1] None
       in fst r2 = Inr USER
          \<and> handler_auth_failed (snd r2)
          \<and> get_file_encryption_key (snd r2) = Inr [7, 7]
          \<and> standard_shared_key (\<lparr> filter_shared_key = None \<rparr>, Some (snd r2)) =
              (Inl (PdfReadError AuthenticationFailed), \<lparr> filter_shared_key = None \<rparr>, Some (snd r2)))"
proof -
  let ?h1 = "snd (authenticate example_r6 example_legacy example_handler [0] None)"
  let ?h2 = "snd (authenticate example_r6 example_legacy ?h1 [1] None)"
  have a: "authenticate_inner example_r6 example_legacy example_handler [0] None = Inr (FAILED, None)"
    by (simp add: authenticate_inner_def example_r6_def example_handler_def)
  have b: "?h1 = authenticate_calls example_r6 example_legacy ?h1 []" by simp
  have c: "authenticate_inner example_r6 example_legacy ?h1 [1] None = Inr (USER, Some [7, 7])"
    by (simp add: authenticate_inner_def authenticate_def example_r6_def example_handler_def)
  have d: "filter_shared_key \<lparr> filter_shared_key = None \<rparr> = None" by simp
  have e: "fst (authenticate example_r6 example_legacy example_handler [0] None) = Inr FAILED"
    using a by (simp add: authenticate_def)
  show ?thesis
    using e failed_authentication_latches[OF a refl b c refl d]
    by (simp add: Let_def)
qed

subsection \<open>The legacy file key\<close>

lemma fold_ignoring_index: "fold (\<lambda>i. f) [0 ..< n] x = (f ^^ n) x"
  by (induction n) simp_all

lemma byte_of_word:
  "(ucast (drop_bit n (word_of_int p :: 32 word)) :: byte) = word_of_int ((p mod 2 ^ 32) div 2 ^ n)"
proof -
  have "(ucast (drop_bit n (word_of_int p :: 32 word)) :: byte) =
        word_of_int (uint (drop_bit n (word_of_int p :: 32 word)))"
    by (rule ucast_eq)
  also have "uint (drop_bit n (word_of_int p :: 32 word)) =
        drop_bit n (take_bit 32 (uint (word_of_int p :: 32 word)))"
    using unsigned_drop_bit_eq[of n "word_of_int p :: 32 word", where ?'a = int] by simp
  also have "\<dots> = (p mod 2 ^ 32) div 2 ^ n"
    by (simp add: uint_word_of_int drop_bit_eq_div take_bit_eq_mod)
  finally show ?thesis .
qed

lemma struct_pack_le_i_word:
  assumes "- (2 ^ 31) \<le> p" "p < 2 ^ 31"
  shows "struct_pack_le_i p = Inr (int32_le_bytes (word_of_int p))"
    and "sint (word_of_int p :: 32 word) = p"
proof -
  have "(ucast (word_of_int p :: 32 word) :: byte) = word_of_int (p mod 2 ^ 32)"
    using byte_of_word[of 0 p] by simp
  then show "struct_pack_le_i p = Inr (int32_le_bytes (word_of_int p))"
    using assms byte_of_word[of 8 p] byte_of_word[of 16 p] byte_of_word[of 24 p]
    by (simp add: struct_pack_le_i_def int32_le_bytes_def)
  show "sint (word_of_int p :: 32 word) = p"
    using assms by (simp add: signed_of_int signed_take_bit_int_eq_self)
qed

text \<open>
  C2. For a password of 32 bytes, a permission integer that fits 32 signed bits and a
  key length \<open>key_len \<ge> 0\<close>, \<^verbatim>\<open>_derive_legacy_file_key\<close> returns the first \<open>key_len\<close> bytes of:
  the MD5 digest of password, \<^verbatim>\<open>/O\<close> entry, the permissions as a little-endian signed
  integer of 32 bits, the first ID element and, when \<open>rev \<ge> 4\<close> and metadata is not
  encrypted, four bytes \<open>0xFF\<close>; re-hashed 50 times over its first \<open>key_len\<close> bytes when
  \<open>rev \<ge> 3\<close>.
\<close>

theorem derive_legacy_file_key_algorithm_3_2:
  assumes "length password = 32" and "- (2 ^ 31) \<le> p" and "p < 2 ^ 31" and "0 \<le> key_len"
  shows "derive_legacy_file_key P password rev' key_len owner_entry p id1_entry metadata_encrypt =
           Inr (legacy_file_key_spec P password rev' (nat key_len) owner_entry (word_of_int p)
                  id1_entry metadata_encrypt)
         \<and> sint (word_of_int p :: 32 word) = p"
proof -
  have tk: "py_take key_len = (take (nat key_len) :: bytes \<Rightarrow> bytes)"
    using assms(4) by (auto simp: py_take_def)
  show ?thesis
    using struct_pack_le_i_word[OF assms(2,3)] assms(1)
    by (simp add: derive_legacy_file_key_def legacy_file_key_spec_def tk fold_ignoring_index
        hash_new_def hash_update_def Let_def del: funpow.simps)
qed

text \<open>
  Revision 3, key length 16, permissions \<open>-44\<close>, with the stand-in primitives, whose
  MD5 is the reversed input cut to 16 bytes.
\<close>

theorem derive_legacy_file_key_algorithm_3_2_witness:
  "length (replicate 32 (65::byte)) = 32 \<and> - (2 ^ 31) \<le> (- 44 :: int) \<and> (- 44 :: int) < 2 ^ 31
   \<and> (0::int) \<le> 16
   \<and> derive_legacy_file_key toy_primitives (replicate 32 65) 3 16 (replicate 32 1) (- 44)
        [0, 0x11, 0x22, 0x33] True =
      Inr (legacy_file_key_spec toy_primitives (replicate 32 65) 3 16 (replicate 32 1)
             (word_of_int (- 44)) [0, 0x11, 0x22, 0x33] True)
   \<and> derive_legacy_file_key toy_primitives (replicate 32 65) 3 16 (replicate 32 1) (- 44)
        [0, 0x11, 0x22, 0x33] True =
      Inr [51, 34, 17, 0, 255, 255, 255, 212, 1, 1, 1, 1, 1, 1, 1, 1]"
proof -
  have h: "length (replicate 32 (65::byte)) = 32" "- (2 ^ 31) \<le> (- 44 :: int)"
    "(- 44 :: int) < 2 ^ 31" "(0::int) \<le> 16"
    by simp_all
  have v: "derive_legacy_file_key toy_primitives (replicate 32 65) 3 16 (replicate 32 1) (- 44)
        [0, 0x11, 0x22, 0x33] True =
      Inr [51, 34, 17, 0, 255, 255, 255, 212, 1, 1, 1, 1, 1, 1, 1, 1]"
    by code_simp
  show ?thesis
    using h v derive_legacy_file_key_algorithm_3_2[OF h, of toy_primitives 3 "replicate 32 1"
        "[0, 0x11, 0x22, 0x33]" True]
    by simp
qed

subsection \<open>Rounds of the revision 6 hash\<close>

lemma r6_round_succeeds:
  assumes ok: "primitives_ok P" and k: "digest_sized k"
  obtains k' l' where "r6_round P pw_bytes u (k, round_no, l) = Inr (k', round_no + 1, l')"
    and "digest_sized k'"
proof -
  let ?k1 = "concat (replicate 64 (pw_bytes @ k @ u))"
  have len: "length ?k1 = 64 * length (pw_bytes @ k @ u)"
    by (simp add: length_concat sum_list_replicate)
  have kne: "k \<noteq> []" using k by (auto simp: digest_sized_def)
  then have "length (pw_bytes @ k @ u) \<noteq> 0" by simp
  with len have ne: "?k1 \<noteq> []" by (metis length_0_conv mult_is_0 zero_neq_numeral)
  have dv: "16 dvd length ?k1" unfolding len by simp
  have key: "length (take 16 k) = 16" and iv: "length (py_slice 16 32 k) = 16"
    using k by (auto simp: digest_sized_def py_slice_def)
  from ok key iv ne dv obtain e
    where e: "aes_cbc_no_padding_encrypt P (take 16 k) ?k1 (py_slice 16 32 k) = Inr (py_slice 16 32 k, e)"
      and le: "length e = length ?k1"
    unfolding primitives_ok_def by blast
  from le ne have ene: "e \<noteq> []" by auto
  let ?i = "bytes_mod_3 (take 16 e)"
  let ?h = "if ?i = 0 then sha256 P else if ?i = 1 then sha384 P else sha512 P"
  have r: "r6_round P pw_bytes u (k, round_no, l) = Inr (?h e, round_no + 1, last e)"
    using e ene by (simp add: r6_round_def Let_def)
  have "digest_sized (?h e)"
    using ok by (simp add: primitives_ok_def digest_sized_def)
  with r show ?thesis using that by blast
qed

lemma r6_continue_bound: "r6_continue (k, round_no, l) \<Longrightarrow> round_no < 287"
  using uint_lt2p[of l] by (auto simp: r6_continue_def)

lemma r6_loop_exits:
  "primitives_ok P \<Longrightarrow> digest_sized (fst st) \<Longrightarrow>
     \<exists>n k' l'. r6_rounds P pw_bytes u n st = Inr (k', fst (snd st) + int n, l')
        \<and> \<not> r6_continue (k', fst (snd st) + int n, l')
        \<and> (\<forall>m<n. \<forall>st'. r6_rounds P pw_bytes u m st = Inr st' \<longrightarrow> r6_continue st')
        \<and> (r6_continue st \<longrightarrow> fst (snd st) + int n \<le> 287)
        \<and> r6_loop P pw_bytes u st = Inr (take 32 k')"
proof (induction P pw_bytes u st rule: r6_loop.induct)
  case (1 P pw_bytes u st)
  note ok = \<open>primitives_ok P\<close>
  obtain k r l where st: "st = (k, r, l)" by (cases st) auto
  show ?case
  proof (cases "r6_continue st")
    case False
    have "r6_rounds P pw_bytes u 0 st = Inr (k, r + int 0, l)" by (simp add: st)
    moreover have "\<not> r6_continue (k, r + int 0, l)" using False by (simp add: st)
    moreover have "r6_loop P pw_bytes u st = Inr (take 32 k)"
      using False by (subst r6_loop.simps) (simp add: st)
    ultimately show ?thesis using False unfolding st
      by (intro exI[of _ 0] exI[of _ k] exI[of _ l]) simp
  next
    case True
    from "1.prems"(2) have dk: "digest_sized k" by (simp add: st)
    from r6_round_succeeds[OF ok dk, of pw_bytes u r l]
    obtain k1 l1 where step: "r6_round P pw_bytes u st = Inr (k1, r + 1, l1)"
      and dk1: "digest_sized k1"
      unfolding st by blast
    from "1.IH"[OF True step ok] dk1
    obtain n k' l' where
      a: "r6_rounds P pw_bytes u n (k1, r + 1, l1) = Inr (k', r + 1 + int n, l')"
      and b: "\<not> r6_continue (k', r + 1 + int n, l')"
      and c: "\<forall>m<n. \<forall>st'. r6_rounds P pw_bytes u m (k1, r + 1, l1) = Inr st' \<longrightarrow> r6_continue st'"
      and d: "r6_continue (k1, r + 1, l1) \<longrightarrow> r + 1 + int n \<le> 287"
      and e: "r6_loop P pw_bytes u (k1, r + 1, l1) = Inr (take 32 k')"
      by auto
    have a': "r6_rounds P pw_bytes u (Suc n) st = Inr (k', r + int (Suc n), l')"
      using a step by (simp add: add.assoc)
    have b': "\<not> r6_continue (k', r + int (Suc n), l')"
      using b by (simp add: add.assoc)
    have c': "\<forall>m<Suc n. \<forall>st'. r6_rounds P pw_bytes u m st = Inr st' \<longrightarrow> r6_continue st'"
    proof (intro allI impI)
      fix m st' assume m: "m < Suc n" and r: "r6_rounds P pw_bytes u m st = Inr st'"
      show "r6_continue st'"
      proof (cases m)
        case 0
        with r True show ?thesis by simp
      next
        case (Suc m')
        with r step have "r6_rounds P pw_bytes u m' (k1, r + 1, l1) = Inr st'" by simp
        moreover from m Suc have "m' < n" by simp
        ultimately show ?thesis using c by blast
      qed
    qed
    have d': "r + int (Suc n) \<le> 287"
    proof (cases n)
      case 0
      from True have "r < 287" unfolding st by (rule r6_continue_bound)
      with 0 show ?thesis by simp
    next
      case (Suc n')
      have "r6_rounds P pw_bytes u 0 (k1, r + 1, l1) = Inr (k1, r + 1, l1)" by simp
      moreover have "0 < n" using Suc by simp
      ultimately have "r6_continue (k1, r + 1, l1)"
        using c by blast
      with d show ?thesis by simp
    qed
    have e': "r6_loop P pw_bytes u st = Inr (take 32 k')"
      using True step e by (subst r6_loop.simps) simp
    from a' b' c' d' e' show ?thesis unfolding st
      by (intro exI[of _ "Suc n"] exI[of _ k'] exI[of _ l']) simp
  qed
qed

text \<open>
  C5. With primitives that meet their contract, a salt of 8 bytes and no \<^verbatim>\<open>/U\<close> entry
  or one of 48 bytes, \<^verbatim>\<open>_r6_hash_algo\<close> returns: there is a number \<open>n\<close> of rounds,
  between 64 and 287, after which the round count \<open>n\<close> and the last byte of the last
  \<open>E\<close> satisfy \<open>last \<le> n - 32\<close>; after every smaller number of rounds the loop
  condition (round count below 64, or last byte above round count minus 32) still holds;
  and the value returned is the first 32 bytes of the digest after these \<open>n\<close> rounds.
\<close>

theorem r6_hash_algo_terminates:
  assumes ok: "primitives_ok P"
    and salt: "length current_salt = 8"
    and uentry: "u_entry = None \<or> (\<exists>x. u_entry = Some x \<and> length x = 48)"
    and u: "u = (case u_entry of None \<Rightarrow> [] | Some x \<Rightarrow> x)"
    and k0: "k0 = sha256 P (pw_bytes @ current_salt @ u)"
  shows "\<exists>n k last_byte_val.
           r6_rounds P pw_bytes u n (k0, 0, 0) = Inr (k, int n, last_byte_val)
         \<and> 64 \<le> n \<and> n \<le> 287 \<and> uint last_byte_val \<le> int n - 32
         \<and> (\<forall>m<n. \<forall>k' round_no l'.
               r6_rounds P pw_bytes u m (k0, 0, 0) = Inr (k', round_no, l') \<longrightarrow>
               round_no < 64 \<or> uint l' > round_no - 32)
         \<and> r6_hash_algo P pw_bytes current_salt u_entry = Inr (take 32 k)"
proof -
  have d0: "digest_sized (fst (k0, 0::int, 0::byte))"
    using ok by (simp add: k0 primitives_ok_def digest_sized_def)
  from r6_loop_exits[OF ok d0, of pw_bytes u]
  obtain n k l where
    a: "r6_rounds P pw_bytes u n (k0, 0, 0) = Inr (k, int n, l)"
    and b: "\<not> r6_continue (k, int n, l)"
    and c: "\<forall>m<n. \<forall>st'. r6_rounds P pw_bytes u m (k0, 0, 0) = Inr st' \<longrightarrow> r6_continue st'"
    and d: "r6_continue (k0, 0, 0) \<longrightarrow> int n \<le> 287"
    and e: "r6_loop P pw_bytes u (k0, 0, 0) = Inr (take 32 k)"
    by auto
  have "r6_continue (k0, 0, 0)" by (simp add: r6_continue_def)
  with d have n287: "n \<le> 287" by simp
  from b have n64: "64 \<le> n" and last: "uint l \<le> int n - 32"
    by (auto simp: r6_continue_def)
  have c': "\<forall>m<n. \<forall>k' round_no l'.
               r6_rounds P pw_bytes u m (k0, 0, 0) = Inr (k', round_no, l') \<longrightarrow>
               round_no < 64 \<or> uint l' > round_no - 32"
  proof (intro allI impI)
    fix m k' round_no l'
    assume "m < n" and "r6_rounds P pw_bytes u m (k0, 0, 0) = Inr (k', round_no, l')"
    with c have "r6_continue (k', round_no, l')" by blast
    then show "round_no < 64 \<or> uint l' > round_no - 32" by (simp add: r6_continue_def)
  qed
  have noassert: "\<not> (u \<noteq> [] \<and> length u \<noteq> 48)"
    using uentry by (auto simp: u)
  have res: "r6_hash_algo P pw_bytes current_salt u_entry = Inr (take 32 k)"
    using salt noassert e by (simp add: r6_hash_algo_def Let_def u[symmetric] k0[symmetric])
  from a n64 n287 last c' res show ?thesis by blast
qed

subsection \<open>The stand-in primitives\<close>

lemma length_toy_digest: "length (toy_digest n x) = n"
  by (simp add: toy_digest_def)

lemma toy_primitives_ok: "primitives_ok toy_primitives"
  by (simp add: primitives_ok_def toy_primitives_def length_toy_digest)

lemma r6_rounds_last:
  "r6_rounds P pw_bytes u (Suc n) st =
     (case r6_rounds P pw_bytes u n st of Inl err \<Rightarrow> Inl err | Inr st' \<Rightarrow> r6_round P pw_bytes u st')"
proof (induction n arbitrary: st)
  case 0
  show ?case by (simp split: sum.splits)
next
  case (Suc n)
  show ?case
  proof (cases "r6_round P pw_bytes u st")
    case (Inl err)
    then show ?thesis by simp
  next
    case (Inr st1)
    have "r6_rounds P pw_bytes u (Suc (Suc n)) st = r6_rounds P pw_bytes u (Suc n) st1"
      using Inr by simp
    also have "\<dots> = (case r6_rounds P pw_bytes u n st1 of Inl err \<Rightarrow> Inl err
                        | Inr st' \<Rightarrow> r6_round P pw_bytes u st')"
      by (rule Suc.IH)
    also have "r6_rounds P pw_bytes u n st1 = r6_rounds P pw_bytes u (Suc n) st"
      using Inr by simp
    finally show ?thesis .
  qed
qed

lemma toy_round_digest:
  assumes "r6_round toy_primitives (b # pw) u st = Inr (k', r', l')"
  shows "take 32 k' = b # replicate 31 0"
proof -
  obtain k r l where st: "st = (k, r, l)" by (cases st) auto
  let ?e = "concat (replicate 64 ((b # pw) @ k @ u))"
  have "replicate 64 ((b # pw) @ k @ u) = ((b # pw) @ k @ u) # replicate 63 ((b # pw) @ k @ u)"
    by (simp add: replicate_Suc[symmetric] del: replicate_Suc)
  then have hd: "take 1 ?e = [b]" by simp
  have "k' = toy_digest 32 ?e \<or> k' = toy_digest 48 ?e \<or> k' = toy_digest 64 ?e"
    using assms unfolding st r6_round_def toy_primitives_def
    by (auto simp: Let_def split: if_splits)
  then show ?thesis
    using hd by (auto simp: toy_digest_def numeral_eq_Suc)
qed

lemma toy_rounds_digest:
  assumes "r6_rounds toy_primitives (b # pw) u n st = Inr (k', r', l')" and "0 < n"
  shows "take 32 k' = b # replicate 31 0"
proof -
  from assms(2) obtain m where n: "n = Suc m" by (cases n) auto
  from assms(1) obtain st1 where "r6_round toy_primitives (b # pw) u st1 = Inr (k', r', l')"
    unfolding n r6_rounds_last by (auto split: sum.splits)
  then show ?thesis by (rule toy_round_digest)
qed

text \<open>The password \<open>07 01 02\<close> with the stand-in primitives, without a \<^verbatim>\<open>/U\<close> entry.\<close>

theorem r6_hash_algo_terminates_witness:
  "primitives_ok toy_primitives \<and> length [1, 2, 3, 4, 5, 6, 7, 8 :: byte] = 8
   \<and> ((None :: bytes option) = None \<or> (\<exists>x. (None :: bytes option) = Some x \<and> length x = 48))
   \<and> r6_hash_algo toy_primitives [7, 1, 2] [1, 2, 3, 4, 5, 6, 7, 8] None = Inr (7 # replicate 31 0)"
proof -
  have h2: "length [1, 2, 3, 4, 5, 6, 7, 8 :: byte] = 8" by simp
  have h3: "(None :: bytes option) = None \<or> (\<exists>x. (None :: bytes option) = Some x \<and> length x = 48)"
    by simp
  have h4: "[] = (case (None :: bytes option) of None \<Rightarrow> [] | Some x \<Rightarrow> x)" by simp
  from r6_hash_algo_terminates[OF toy_primitives_ok h2 h3 h4 refl, of "[7, 1, 2]"]
  obtain n k l where
    r: "r6_rounds toy_primitives [7, 1, 2] [] n
          (sha256 toy_primitives ([7, 1, 2] @ [1, 2, 3, 4, 5, 6, 7, 8] @ []), 0, 0) = Inr (k, int n, l)"
    and n: "64 \<le> n"
    and v: "r6_hash_algo toy_primitives [7, 1, 2] [1, 2, 3, 4, 5, 6, 7, 8] None = Inr (take 32 k)"
    by blast
  from n have "0 < n" by simp
  from toy_rounds_digest[OF r this] v
  have "r6_hash_algo toy_primitives [7, 1, 2] [1, 2, 3, 4, 5, 6, 7, 8] None = Inr (7 # replicate 31 0)"
    by simp
  with toy_primitives_ok h2 h3 show ?thesis by blast
qed

subsection \<open>Revision 6 authentication\<close>

lemma r6_loop_digest:
  "primitives_ok P \<Longrightarrow> digest_sized (fst st) \<Longrightarrow>
     \<exists>k'. digest_sized k' \<and> r6_loop P pw_bytes u st = Inr (take 32 k')"
proof (induction P pw_bytes u st rule: r6_loop.induct)
  case (1 P pw_bytes u st)
  note ok = \<open>primitives_ok P\<close>
  obtain k r l where st: "st = (k, r, l)" by (cases st) auto
  show ?case
  proof (cases "r6_continue st")
    case False
    then have "r6_loop P pw_bytes u st = Inr (take 32 k)"
      by (subst r6_loop.simps) (simp add: st)
    with "1.prems"(2) show ?thesis by (auto simp: st)
  next
    case True
    from "1.prems"(2) have dk: "digest_sized k" by (simp add: st)
    from r6_round_succeeds[OF ok dk, of pw_bytes u r l]
    obtain k1 l1 where step: "r6_round P pw_bytes u st = Inr (k1, r + 1, l1)"
      and dk1: "digest_sized k1"
      unfolding st by blast
    from "1.IH"[OF True step ok] dk1
    obtain k' where "digest_sized k'" "r6_loop P pw_bytes u (k1, r + 1, l1) = Inr (take 32 k')"
      by auto
    moreover have "r6_loop P pw_bytes u st = r6_loop P pw_bytes u (k1, r + 1, l1)"
      using True step by (subst r6_loop.simps) simp
    ultimately show ?thesis by auto
  qed
qed

lemma r6_hash_algo_returns:
  assumes "primitives_ok P" "length current_salt = 8"
    "u_entry = None \<or> (\<exists>x. u_entry = Some x \<and> length x = 48)"
  obtains x where "r6_hash_algo P pw_bytes current_salt u_entry = Inr x" "length x = 32"
proof -
  let ?u = "case u_entry of None \<Rightarrow> [] | Some x \<Rightarrow> x"
  let ?k0 = "sha256 P (pw_bytes @ current_salt @ ?u)"
  have "digest_sized (fst (?k0, 0::int, 0::byte))"
    using assms(1) by (simp add: primitives_ok_def digest_sized_def)
  from r6_loop_digest[OF assms(1) this, of pw_bytes ?u]
  obtain k' where k': "digest_sized k'" "r6_loop P pw_bytes ?u (?k0, 0, 0) = Inr (take 32 k')"
    by blast
  have "\<not> (?u \<noteq> [] \<and> length ?u \<noteq> 48)" using assms(3) by auto
  then have "r6_hash_algo P pw_bytes current_salt u_entry = Inr (take 32 k')"
    using assms(2) k'(2) by (simp add: r6_hash_algo_def Let_def)
  moreover have "length (take 32 k') = 32" using k'(1) by (auto simp: digest_sized_def)
  ultimately show ?thesis using that by blast
qed

lemma horner_bytes_bounds:
  "0 \<le> horner_sum uint (256::int) (b :: bytes) \<and> horner_sum uint (256::int) b < 256 ^ length b"
proof (induction b)
  case Nil
  show ?case by simp
next
  case (Cons x xs)
  have x: "0 \<le> uint x" "uint x \<le> 255" using uint_lt2p[of x] by simp_all
  from Cons.IH have "256 * horner_sum uint (256::int) xs \<le> 256 * (256 ^ length xs - 1)"
    by simp
  with x Cons.IH show ?case by (simp add: algebra_simps)
qed

lemma struct_unpack_le_i_word:
  assumes "length b = 4"
  shows "struct_unpack_le_i b = Inr (sint (word_rcat (rev b) :: 32 word))"
proof -
  let ?u = "horner_sum uint (256::int) b"
  have f: "foldr (\<lambda>x acc. uint x + 256 * acc) b 0 = ?u"
    by (simp add: horner_sum_foldr)
  have bnd: "0 \<le> ?u" "?u < 2 ^ 32"
    using horner_bytes_bounds[of b] assms by simp_all
  have w: "(word_rcat (rev b) :: 32 word) = word_of_int ?u"
    by (simp add: word_rcat_def)
  have "sint (word_of_int ?u :: 32 word) = signed_take_bit 31 ?u"
    by (simp add: sint_sbintrunc')
  also have "\<dots> = take_bit 32 (?u + 2 ^ 31) - 2 ^ 31"
    by (simp add: signed_take_bit_eq_take_bit_shift)
  also have "\<dots> = (if ?u < 2 ^ 31 then ?u else ?u - 2 ^ 32)"
  proof (cases "?u < 2 ^ 31")
    case True
    then have "(?u + 2 ^ 31) mod 2 ^ 32 = ?u + 2 ^ 31"
      using bnd by (intro mod_pos_pos_trivial) simp_all
    with True show ?thesis by (simp add: take_bit_eq_mod)
  next
    case False
    have "(?u + 2 ^ 31) mod 2 ^ 32 = (?u + 2 ^ 31 - 2 ^ 32) mod 2 ^ 32"
      by (simp only: minus_mod_self2)
    also have "\<dots> = ?u + 2 ^ 31 - 2 ^ 32"
      using bnd False by (intro mod_pos_pos_trivial) simp_all
    finally show ?thesis using False by (simp add: take_bit_eq_mod)
  qed
  finally show ?thesis
    using assms by (simp add: struct_unpack_le_i_def f w Let_def)
qed

lemma adb_slice:
  assumes "length d = 16"
  shows "py_slice 9 12 d = [d ! 9, d ! 10, d ! 11]"
proof -
  have "length (py_slice 9 12 d) = 3" using assms by (simp add: py_slice_def)
  moreover have "py_slice 9 12 d ! i = [d ! 9, d ! 10, d ! 11] ! i" if "i < 3" for i
  proof -
    from that have "i = 0 \<or> i = 1 \<or> i = 2" by auto
    then show ?thesis using assms by (auto simp: py_slice_def)
  qed
  ultimately show ?thesis by (simp add: list_eq_iff_nth_eq)
qed

lemma r6_check_perms_decides:
  assumes ep: "encrypted_perms h = Some ep"
    and dec: "aes_cbc_no_padding_decrypt P key ep (replicate 16 0) = Inr d"
    and len: "length d = 16"
  shows "r6_check_perms P h result key =
     (if perms_entry_valid h d then Inr (result, Some key) else Inl PdfError_PermsTampered)"
proof -
  have u: "struct_unpack_le_i (take 4 d) = Inr (sint (word_rcat (rev (take 4 d)) :: 32 word))"
    using len by (intro struct_unpack_le_i_word) simp
  have flag: "(case EXPECTED_PERMS_8 (d ! 8) of
                 Some decr_metadata_flag \<Rightarrow> X \<and> decr_metadata_flag = encrypt_metadata h
               | None \<Rightarrow> False) =
              (X \<and> d ! 8 = (if encrypt_metadata h then 0x54 else 0x46))" for X
    by (auto simp: EXPECTED_PERMS_8_def)
  show ?thesis
    using len
    by (simp add: r6_check_perms_def ep dec u Let_def flag perms_entry_valid_def adb_slice
        eq_commute[of "perms h"])
qed

text \<open>
  C3. On a revision 6 handler as the constructor admits it, with primitives that meet
  their contracts: the two validation hashes are computed; if the hash with the
  validation salt of \<^verbatim>\<open>/O\<close> and the whole \<^verbatim>\<open>/U\<close> entry equals the first 32 bytes of
  \<^verbatim>\<open>/O\<close>, the key is \<^verbatim>\<open>/OE\<close> decrypted under the hash with the key salt of \<^verbatim>\<open>/O\<close>, and
  the result is \<open>OWNER\<close> with that key; otherwise, if the hash with the validation salt
  of \<^verbatim>\<open>/U\<close> equals the first 32 bytes of \<^verbatim>\<open>/U\<close>, the same with \<^verbatim>\<open>/UE\<close> and \<open>USER\<close>;
  otherwise the result is \<open>FAILED\<close> without a key. In the two matching cases the
  \<^verbatim>\<open>/Perms\<close> entry, decrypted with the key and a zero vector, must be valid, and when it
  is not the outcome is the permissions error, not \<open>FAILED\<close>.
\<close>

theorem authenticate_r6_outcomes:
  assumes ok: "primitives_ok P" and dok: "decrypt_ok P" and wf: "r6_handler_wf h"
    and pw: "pw = r6_normalise_pw password"
  shows "\<exists>ho hu oe ue ep.
      oeseed h = Some oe \<and> ueseed h = Some ue \<and> encrypted_perms h = Some ep
    \<and> r6_hash_algo P pw (py_slice 32 40 (odata h)) (Some (udata h)) = Inr ho
    \<and> r6_hash_algo P pw (py_slice 32 40 (udata h)) None = Inr hu
    \<and> (if ho = take 32 (odata h) then
          \<exists>ik key d.
              r6_hash_algo P pw (py_slice 40 48 (odata h)) (Some (udata h)) = Inr ik
            \<and> aes_cbc_no_padding_decrypt P ik oe (replicate 16 0) = Inr key
            \<and> aes_cbc_no_padding_decrypt P key ep (replicate 16 0) = Inr d
            \<and> authenticate_r6 P h password =
                (if perms_entry_valid h d then Inr (OWNER, Some key)
                 else Inl PdfError_PermsTampered)
        else if hu = take 32 (udata h) then
          \<exists>ik key d.
              r6_hash_algo P pw (py_slice 40 48 (udata h)) None = Inr ik
            \<and> aes_cbc_no_padding_decrypt P ik ue (replicate 16 0) = Inr key
            \<and> aes_cbc_no_padding_decrypt P key ep (replicate 16 0) = Inr d
            \<and> authenticate_r6 P h password =
                (if perms_entry_valid h d then Inr (USER, Some key)
                 else Inl PdfError_PermsTampered)
        else authenticate_r6 P h password = Inr (FAILED, None))"
proof -
  from wf obtain oe ue ep where oe: "oeseed h = Some oe" "length oe = 32"
    and ue: "ueseed h = Some ue" "length ue = 32"
    and ep: "encrypted_perms h = Some ep" "length ep = 16"
    and lo: "length (odata h) = 48" and lu: "length (udata h) = 48"
    by (auto simp: r6_handler_wf_def split: option.splits)
  have usome: "Some (udata h) = None \<or> (\<exists>x. Some (udata h) = Some x \<and> length x = 48)"
    using lu by simp
  have unone: "(None :: bytes option) = None \<or> (\<exists>x. (None :: bytes option) = Some x \<and> length x = 48)"
    by simp
  have s1: "length (py_slice 32 40 (odata h)) = 8" "length (py_slice 40 48 (odata h)) = 8"
    "length (py_slice 32 40 (udata h)) = 8" "length (py_slice 40 48 (udata h)) = 8"
    using lo lu by (simp_all add: py_slice_def)
  obtain ho where ho: "r6_hash_algo P pw (py_slice 32 40 (odata h)) (Some (udata h)) = Inr ho"
    using r6_hash_algo_returns[OF ok s1(1) usome] by blast
  obtain hu where hu: "r6_hash_algo P pw (py_slice 32 40 (udata h)) None = Inr hu"
    using r6_hash_algo_returns[OF ok s1(3) unone] by blast
  have split: "R6KeyEntry_from_bytes (odata h) =
      Inr \<lparr> hash_value = take 32 (odata h), validation_salt = py_slice 32 40 (odata h),
            key_salt = py_slice 40 48 (odata h) \<rparr>"
    "R6KeyEntry_from_bytes (udata h) =
      Inr \<lparr> hash_value = take 32 (udata h), validation_salt = py_slice 32 40 (udata h),
            key_salt = py_slice 40 48 (udata h) \<rparr>"
    using lo lu by (simp_all add: R6KeyEntry_from_bytes_def)
  have zeros: "length (replicate 16 (0::byte)) = 16" by simp
  have keyed: "\<exists>key d. aes_cbc_no_padding_decrypt P ik e (replicate 16 0) = Inr key
      \<and> aes_cbc_no_padding_decrypt P key ep (replicate 16 0) = Inr d
      \<and> r6_check_perms P h result key =
           (if perms_entry_valid h d then Inr (result, Some key) else Inl PdfError_PermsTampered)"
    if "length ik = 32" "length e = 32" for ik e result
  proof -
    have pre1: "length ik = 32 \<and> length (replicate 16 (0::byte)) = 16 \<and> e \<noteq> [] \<and> 16 dvd length e"
      using that by auto
    from dok[unfolded decrypt_ok_def, rule_format, OF pre1]
    obtain key where key: "aes_cbc_no_padding_decrypt P ik e (replicate 16 0) = Inr key"
      and lk: "length key = length e"
      by blast
    have pre2: "length key = 32 \<and> length (replicate 16 (0::byte)) = 16 \<and> ep \<noteq> [] \<and> 16 dvd length ep"
      using lk that(2) ep(2) by auto
    from dok[unfolded decrypt_ok_def, rule_format, OF pre2]
    obtain d where d: "aes_cbc_no_padding_decrypt P key ep (replicate 16 0) = Inr d"
      and ld: "length d = length ep"
      by blast
    from r6_check_perms_decides[OF ep(1) d] ld ep(2) key d show ?thesis by auto
  qed
  show ?thesis
  proof (cases "ho = take 32 (odata h)")
    case True
    obtain ik where ik: "r6_hash_algo P pw (py_slice 40 48 (odata h)) (Some (udata h)) = Inr ik"
      and lik: "length ik = 32"
      using r6_hash_algo_returns[OF ok s1(2) usome] by blast
    from keyed[OF lik oe(2), of OWNER] obtain key d where
      k: "aes_cbc_no_padding_decrypt P ik oe (replicate 16 0) = Inr key"
      and d: "aes_cbc_no_padding_decrypt P key ep (replicate 16 0) = Inr d"
      and c: "r6_check_perms P h OWNER key =
           (if perms_entry_valid h d then Inr (OWNER, Some key) else Inl PdfError_PermsTampered)"
      by blast
    have "authenticate_r6 P h password =
           (if perms_entry_valid h d then Inr (OWNER, Some key) else Inl PdfError_PermsTampered)"
      using True ho ik k c oe
      by (simp add: authenticate_r6_def pw[symmetric] split r6_password_authenticate_def
          r6_derive_file_key_def Let_def)
    with True oe ue ep ho hu ik k d show ?thesis by auto
  next
    case False
    note notowner = False
    show ?thesis
    proof (cases "hu = take 32 (udata h)")
      case True
      obtain ik where ik: "r6_hash_algo P pw (py_slice 40 48 (udata h)) None = Inr ik"
        and lik: "length ik = 32"
        using r6_hash_algo_returns[OF ok s1(4) unone] by blast
      from keyed[OF lik ue(2), of USER] obtain key d where
        k: "aes_cbc_no_padding_decrypt P ik ue (replicate 16 0) = Inr key"
        and d: "aes_cbc_no_padding_decrypt P key ep (replicate 16 0) = Inr d"
        and c: "r6_check_perms P h USER key =
             (if perms_entry_valid h d then Inr (USER, Some key) else Inl PdfError_PermsTampered)"
        by blast
      have "authenticate_r6 P h password =
             (if perms_entry_valid h d then Inr (USER, Some key) else Inl PdfError_PermsTampered)"
        using True notowner ho hu ik k c ue
        by (simp add: authenticate_r6_def pw[symmetric] split r6_password_authenticate_def
            r6_derive_file_key_def Let_def)
      with True notowner oe ue ep ho hu ik k d show ?thesis by auto
    next
      case False
      have "authenticate_r6 P h password = Inr (FAILED, None)"
        using False notowner ho hu
        by (simp add: authenticate_r6_def pw[symmetric] split r6_password_authenticate_def Let_def)
      with False notowner oe ue ep ho hu show ?thesis by auto
    qed
  qed
qed

lemma toy_decrypt_ok: "decrypt_ok toy_primitives"
  by (simp add: decrypt_ok_def toy_primitives_def)

lemma toy_r6_hash:
  assumes "length current_salt = 8"
    and "u_entry = None \<or> (\<exists>x. u_entry = Some x \<and> length x = 48)"
  shows "r6_hash_algo toy_primitives (b # pw) current_salt u_entry = Inr (b # replicate 31 0)"
proof -
  let ?u = "case u_entry of None \<Rightarrow> [] | Some x \<Rightarrow> x"
  let ?k0 = "sha256 toy_primitives ((b # pw) @ current_salt @ ?u)"
  have "digest_sized (fst (?k0, 0::int, 0::byte))"
    using toy_primitives_ok by (simp add: primitives_ok_def digest_sized_def)
  from r6_loop_exits[OF toy_primitives_ok this, of "b # pw" ?u]
  obtain n k' l' where
    r: "r6_rounds toy_primitives (b # pw) ?u n (?k0, 0, 0) = Inr (k', int n, l')"
    and x: "\<not> r6_continue (k', int n, l')"
    and v: "r6_loop toy_primitives (b # pw) ?u (?k0, 0, 0) = Inr (take 32 k')"
    by auto
  from x have "0 < n" by (auto simp: r6_continue_def)
  from toy_rounds_digest[OF r this] v
  have "r6_loop toy_primitives (b # pw) ?u (?k0, 0, 0) = Inr (b # replicate 31 0)" by simp
  moreover have "\<not> (?u \<noteq> [] \<and> length ?u \<noteq> 48)" using assms(2) by auto
  ultimately show ?thesis using assms(1) by (simp add: r6_hash_algo_def Let_def)
qed

lemma toy_r6_handler_parts:
  "take 32 (odata toy_r6_handler) = 9 # replicate 31 0"
  "take 32 (udata toy_r6_handler) = 7 # replicate 31 0"
  "py_slice 32 40 (odata toy_r6_handler) = [1, 2, 3, 4, 5, 6, 7, 8]"
  "py_slice 40 48 (odata toy_r6_handler) = [8, 7, 6, 5, 4, 3, 2, 1]"
  "py_slice 32 40 (udata toy_r6_handler) = [11, 12, 13, 14, 15, 16, 17, 18]"
  "py_slice 40 48 (udata toy_r6_handler) = [18, 17, 16, 15, 14, 13, 12, 11]"
  "length (udata toy_r6_handler) = 48"
  "r6_handler_wf toy_r6_handler"
  by code_simp+

lemma toy_perms_block:
  "perms_entry_valid toy_r6_handler
     [0xd4, 0xff, 0xff, 0xff, 0xff, 0xff, 0xff, 0xff, 0x54, 0x61, 0x64, 0x62, 1, 2, 3, 4]"
  "\<not> perms_entry_valid (toy_r6_handler\<lparr> perms := - 4 \<rparr>)
     [0xd4, 0xff, 0xff, 0xff, 0xff, 0xff, 0xff, 0xff, 0x54, 0x61, 0x64, 0x62, 1, 2, 3, 4]"
  by code_simp+

text \<open>
  On the example handler: a password starting with 9 is the owner's, one starting with 7
  the user's, any other fails; with the stored permissions changed to \<open>-4\<close> the user
  password ends in the permissions error.
\<close>

theorem authenticate_r6_outcomes_witness:
  "primitives_ok toy_primitives \<and> decrypt_ok toy_primitives \<and> r6_handler_wf toy_r6_handler
   \<and> authenticate_r6 toy_primitives toy_r6_handler [9, 1] = Inr (OWNER, Some (replicate 32 0xAA))
   \<and> authenticate_r6 toy_primitives toy_r6_handler [7, 1] = Inr (USER, Some (replicate 32 0xBB))
   \<and> authenticate_r6 toy_primitives toy_r6_handler [5] = Inr (FAILED, None)
   \<and> authenticate_r6 toy_primitives (toy_r6_handler\<lparr> perms := - 4 \<rparr>) [7, 1] =
       Inl PdfError_PermsTampered"
proof -
  let ?H = toy_r6_handler
  let ?T = "toy_r6_handler\<lparr> perms := - 4 \<rparr>"
  note wf = toy_r6_handler_parts(8)
  have wfT: "r6_handler_wf ?T" using wf by (simp add: r6_handler_wf_def)
  have fields: "oeseed ?H = Some (replicate 32 0xAA)" "ueseed ?H = Some (replicate 32 0xBB)"
    "encrypted_perms ?H =
       Some [0xd4, 0xff, 0xff, 0xff, 0xff, 0xff, 0xff, 0xff, 0x54, 0x61, 0x64, 0x62, 1, 2, 3, 4]"
    by (simp_all add: toy_r6_handler_def)
  have dec: "aes_cbc_no_padding_decrypt toy_primitives key data iv = Inr data" for key data iv
    by (simp add: toy_primitives_def)
  have u48: "Some (udata ?H) = None \<or> (\<exists>x. Some (udata ?H) = Some x \<and> length x = 48)"
    using toy_r6_handler_parts(7) by simp
  have none: "(None :: bytes option) = None \<or> (\<exists>x. (None :: bytes option) = Some x \<and> length x = 48)"
    by simp
  have hashes:
    "r6_hash_algo toy_primitives (b # pw) [1, 2, 3, 4, 5, 6, 7, 8] (Some (udata ?H)) = Inr (b # replicate 31 0)"
    "r6_hash_algo toy_primitives (b # pw) [8, 7, 6, 5, 4, 3, 2, 1] (Some (udata ?H)) = Inr (b # replicate 31 0)"
    "r6_hash_algo toy_primitives (b # pw) [11, 12, 13, 14, 15, 16, 17, 18] None = Inr (b # replicate 31 0)"
    "r6_hash_algo toy_primitives (b # pw) [18, 17, 16, 15, 14, 13, 12, 11] None = Inr (b # replicate 31 0)"
    for b pw
    using u48 none by (simp_all add: toy_r6_hash)
  have norm: "r6_normalise_pw [9, 1] = [9, 1]" "r6_normalise_pw [7, 1] = [7, 1]"
    "r6_normalise_pw [5] = [5]"
    by (simp_all add: r6_normalise_pw_def)
  have owner: "authenticate_r6 toy_primitives ?H [9, 1] = Inr (OWNER, Some (replicate 32 0xAA))"
    using authenticate_r6_outcomes[OF toy_primitives_ok toy_decrypt_ok wf norm(1)[symmetric]]
    by (simp add: fields dec hashes toy_r6_handler_parts toy_perms_block)
  have user: "authenticate_r6 toy_primitives ?H [7, 1] = Inr (USER, Some (replicate 32 0xBB))"
    using authenticate_r6_outcomes[OF toy_primitives_ok toy_decrypt_ok wf norm(2)[symmetric]]
    by (simp add: fields dec hashes toy_r6_handler_parts toy_perms_block)
  have failed: "authenticate_r6 toy_primitives ?H [5] = Inr (FAILED, None)"
    using authenticate_r6_outcomes[OF toy_primitives_ok toy_decrypt_ok wf norm(3)[symmetric]]
    by (simp add: fields dec hashes toy_r6_handler_parts toy_perms_block)
  have tampered: "authenticate_r6 toy_primitives ?T [7, 1] = Inl PdfError_PermsTampered"
    using authenticate_r6_outcomes[OF toy_primitives_ok toy_decrypt_ok wfT norm(2)[symmetric]]
    by (simp add: fields dec hashes toy_r6_handler_parts toy_perms_block)
  from toy_primitives_ok toy_decrypt_ok wf owner user failed tampered show ?thesis by blast
qed

end
